theory Spec2Isabelle
  imports Complex_Main
begin

section \<open>Dates of the habit tracker\<close>

text \<open>
  The analytics of the habit tracker live in \<^verbatim>\<open>src/utils/dateUtils.ts\<close> and
  \<^verbatim>\<open>src/utils/habitUtils.ts\<close>. They work on two kinds of dates:

  \<^item> a JavaScript \<^verbatim>\<open>Date\<close>, an instant. It is modelled as the number of
    milliseconds of local time since local midnight of 1970-01-01, in a time zone whose
    offset never changes (no daylight saving), so \<^verbatim>\<open>getTime\<close> differences,
    comparisons and \<^verbatim>\<open>setDate\<close> are plain integer arithmetic;
  \<^item> a date string \<^verbatim>\<open>YYYY-MM-DD\<close>, the key of a completion. It is modelled by the
    number of the local day it denotes (days since 1970-01-01). For the four-digit years
    the application stores, two such strings are equal exactly when they denote the same
    day and \<^verbatim>\<open>localeCompare\<close> orders them as the days are ordered.

  The wall clock (\<^verbatim>\<open>new Date()\<close>, \<^verbatim>\<open>Date.now()\<close>) is an explicit argument
  \<open>now\<close> of every function that reads it; one call reads one instant. Numbers are
  integers, and the two quotients the source rounds with \<^verbatim>\<open>Math.round\<close> are taken on
  exact rationals. The \<^verbatim>\<open>console.log\<close> lines of the source have no effect on the
  results and are left out.
\<close>

type_synonym Date = int
type_synonym DateString = int

definition msPerDay :: int where
  "msPerDay = 24 * 60 * 60 * 1000"

subsection \<open>The calendar of the platform\<close>

text \<open>
  The civil calendar follows the abstract operations of the ECMAScript specification:
  \<open>DayFromYear\<close>, \<open>InLeapYear\<close>, the year and month of a day, and \<open>MakeDay\<close>.
\<close>

definition DayFromYear :: "int \<Rightarrow> int" where
  "DayFromYear y =
     365 * (y - 1970) + (y - 1969) div 4 - (y - 1901) div 100 + (y - 1601) div 400"

definition InLeapYear :: "int \<Rightarrow> bool" where
  "InLeapYear y = (y mod 4 = 0 \<and> (y mod 400 = 0 \<or> y mod 100 \<noteq> 0))"

definition YearFromDay :: "int \<Rightarrow> int" where
  "YearFromDay d =
     (let y = 1970 + (400 * d) div 146097
      in if DayFromYear (y + 1) \<le> d then y + 1
         else if DayFromYear y \<le> d then y
         else y - 1)"

definition DaysBeforeMonth :: "bool \<Rightarrow> int \<Rightarrow> int" where
  "DaysBeforeMonth leap m =
     [0, 31, 59, 90, 120, 151, 181, 212, 243, 273, 304, 334] ! nat m
       + (if leap \<and> 2 \<le> m then 1 else 0)"

definition MonthFromDay :: "int \<Rightarrow> int" where
  "MonthFromDay d =
     (let y = YearFromDay d; n = d - DayFromYear y
      in int (length (filter (\<lambda>m. DaysBeforeMonth (InLeapYear y) m \<le> n) [1..11])))"

definition MakeDay :: "int \<Rightarrow> int \<Rightarrow> int \<Rightarrow> int" where
  "MakeDay y m dt =
     (let ym = y + m div 12; mn = m mod 12
      in DayFromYear ym + DaysBeforeMonth (InLeapYear ym) mn + dt - 1)"

subsection \<open>The methods of \<^verbatim>\<open>Date\<close> the source calls\<close>

definition Day :: "Date \<Rightarrow> int" where
  "Day t = t div msPerDay"

definition TimeWithinDay :: "Date \<Rightarrow> int" where
  "TimeWithinDay t = t mod msPerDay"

definition getFullYear :: "Date \<Rightarrow> int" where
  "getFullYear t = YearFromDay (Day t)"

definition getMonth :: "Date \<Rightarrow> int" where
  "getMonth t = MonthFromDay (Day t)"

definition getDate :: "Date \<Rightarrow> int" where
  "getDate t = Day t - MakeDay (getFullYear t) (getMonth t) 1 + 1"

text \<open>0 = Sunday; 1970-01-01 was a Thursday.\<close>

definition getDay :: "Date \<Rightarrow> int" where
  "getDay t = (Day t + 4) mod 7"

definition setDate :: "Date \<Rightarrow> int \<Rightarrow> Date" where
  "setDate t dt = MakeDay (getFullYear t) (getMonth t) dt * msPerDay + TimeWithinDay t"

text \<open>\<^verbatim>\<open>new Date(year, month, day)\<close>: local midnight of that day.\<close>

definition newDate :: "int \<Rightarrow> int \<Rightarrow> int \<Rightarrow> Date" where
  "newDate y m dt = MakeDay y m dt * msPerDay"

text \<open>\<^verbatim>\<open>new Date(s + 'T00:00:00')\<close>: local midnight of the day the string names.\<close>

definition parseLocal :: "DateString \<Rightarrow> Date" where
  "parseLocal s = s * msPerDay"

text \<open>The date string written \<^verbatim>\<open>YYYY-MM-DD\<close> (month 1 to 12), for concrete inputs.\<close>

definition isoDate :: "int \<Rightarrow> int \<Rightarrow> int \<Rightarrow> DateString" where
  "isoDate y m dt = MakeDay y (m - 1) dt"

subsection \<open>\<^verbatim>\<open>dateUtils.ts\<close>: calendar utilities\<close>

text \<open>
  \<^verbatim>\<open>formatDate\<close> writes the local year, month and day of an instant; the string is
  represented by the day it names.
\<close>

definition formatDate :: "Date \<Rightarrow> DateString" where
  "formatDate date = Day date"

definition getTodayString :: "Date \<Rightarrow> DateString" where
  "getTodayString now = (let today = now in formatDate today)"

definition getWeekStart :: "Date \<Rightarrow> Date" where
  "getWeekStart date =
     (let d = date;
          day = getDay d;
          diff = getDate d - day + (if day = 0 then -6 else 1)
      in setDate d diff)"

definition getMonthStart :: "Date \<Rightarrow> Date" where
  "getMonthStart date = newDate (getFullYear date) (getMonth date) 1"

text \<open>
  Two facts of the platform are needed before the loops can be defined: a day has a
  positive length, and moving the day of the month relative to itself moves the instant
  by whole days (this is what makes every loop over days terminate).
\<close>

lemma msPerDay_pos: "0 < msPerDay"
  by (simp add: msPerDay_def)

lemma Day_add_days: "Day (t + k * msPerDay) = Day t + k"
  using msPerDay_pos by (simp add: Day_def)

lemma Day_sub_day: "Day (t - msPerDay) = Day t - 1"
  using Day_add_days [of t "-1"] by simp

lemma Day_parseLocal: "Day (parseLocal s) = s"
  using msPerDay_pos by (simp add: Day_def parseLocal_def)

lemma Day_TimeWithinDay: "Day t * msPerDay + TimeWithinDay t = t"
  by (simp add: Day_def TimeWithinDay_def)

lemma MakeDay_shift: "MakeDay y m dt = MakeDay y m 1 + dt - 1"
  by (simp add: MakeDay_def Let_def)

text \<open>Setting the day of the month relative to the current one moves by whole days.\<close>

lemma setDate_getDate: "setDate t (getDate t + k) = t + k * msPerDay"
proof -
  have "MakeDay (getFullYear t) (getMonth t) (getDate t + k) = Day t + k"
    using MakeDay_shift [of "getFullYear t" "getMonth t" "getDate t + k"]
    by (simp add: getDate_def)
  then have "setDate t (getDate t + k) = (Day t + k) * msPerDay + TimeWithinDay t"
    by (simp add: setDate_def)
  also have "\<dots> = t + k * msPerDay"
    using Day_TimeWithinDay [of t] by (simp add: algebra_simps)
  finally show ?thesis .
qed


text \<open>
  \<^verbatim>\<open>getDateRange\<close>: the list the \<^verbatim>\<open>while (currentDate <= endDate)\<close> loop pushes, one
  formatted date per iteration.
\<close>

function getDateRange :: "Date \<Rightarrow> Date \<Rightarrow> DateString list" where
  "getDateRange currentDate endDate =
     (if currentDate \<le> endDate
      then formatDate currentDate
             # getDateRange (setDate currentDate (getDate currentDate + 1)) endDate
      else [])"
  by pat_completeness auto
termination
  by (relation "measure (\<lambda>(c, e). nat (e - c + 1))")
     (use msPerDay_pos in \<open>auto simp: setDate_getDate\<close>)

declare getDateRange.simps [simp del]

subsection \<open>Weekday names and rounding\<close>

definition dayNames :: "string list" where
  "dayNames = [''sunday'', ''monday'', ''tuesday'', ''wednesday'', ''thursday'',
               ''friday'', ''saturday'']"

text \<open>The name of the weekday of an instant: \<^verbatim>\<open>dayNames[date.getDay()]\<close>.\<close>

definition dayNameOf :: "Date \<Rightarrow> string" where
  "dayNameOf date = dayNames ! nat (getDay date)"

text \<open>\<^verbatim>\<open>!selectedDays || selectedDays.length === 0\<close>: the legacy daily habit.\<close>

definition noSelectedDays :: "string list option \<Rightarrow> bool" where
  "noSelectedDays selectedDays =
     (case selectedDays of None \<Rightarrow> True | Some ds \<Rightarrow> length ds = 0)"

text \<open>
  \<^verbatim>\<open>Math.round\<close>: the nearest integer, a tie going up. It is applied here to exact
  rationals, where the source applies it to IEEE doubles. For windows of the sizes the
  application has, the two can differ only where the exact percentage is a tie that the
  double misses: 23 completed of 40 scheduled days is 57.5 exactly and rounds to 58 here,
  while the double \<^verbatim>\<open>(23 / 40) * 100\<close> is just below 57.5 and the source returns 57.
  A tie needs a number of scheduled days that is a multiple of 8, and one the double
  misses needs a multiple of 40, so windows of a week or a month (at most 31 days) and a
  single scheduled day are not affected, nor is any bound on the rate.
\<close>

definition Math_round :: "rat \<Rightarrow> int" where
  "Math_round x = \<lfloor>x + 1 / 2\<rfloor>"

subsection \<open>\<^verbatim>\<open>habitUtils.ts\<close>: \<^verbatim>\<open>calculateStreak\<close>\<close>

text \<open>
  The \<^verbatim>\<open>for\<close> loop of the daily branch: it runs over the completions, newest first, and
  stops at the first one that is not the expected date.
\<close>

fun dailyStreakLoop :: "DateString list \<Rightarrow> Date \<Rightarrow> int \<Rightarrow> int" where
  "dailyStreakLoop [] currentDate streak = streak"
| "dailyStreakLoop (completionDate # rest) currentDate streak =
     (let expectedDate = formatDate currentDate
      in if completionDate = expectedDate
         then dailyStreakLoop rest (setDate currentDate (getDate currentDate - 1)) (streak + 1)
         else streak)"

text \<open>
  The \<^verbatim>\<open>while (true)\<close> loop of the scheduled branch. \<open>None\<close> is the \<^verbatim>\<open>break\<close> on a
  scheduled day that is not completed; the second exit is the safety check against
  \<^verbatim>\<open>Date.now()\<close> minus 365 days.
\<close>

function scheduledStreakLoop ::
  "Date \<Rightarrow> string list \<Rightarrow> DateString list \<Rightarrow> Date \<Rightarrow> int \<Rightarrow> int" where
  "scheduledStreakLoop now selectedDays sortedCompletions currentDate streak =
     (case (if dayNameOf currentDate \<in> set selectedDays
            then (if formatDate currentDate \<in> set sortedCompletions
                  then Some (streak + 1) else None)
            else Some streak) of
        None \<Rightarrow> streak
      | Some streak' \<Rightarrow>
          (if setDate currentDate (getDate currentDate - 1)
                < now - 365 * 24 * 60 * 60 * 1000
           then streak'
           else scheduledStreakLoop now selectedDays sortedCompletions
                  (setDate currentDate (getDate currentDate - 1)) streak'))"
  by pat_completeness auto
termination
  by (relation "measure (\<lambda>(now, sel, cs, c, s). nat (c - (now - 365 * 24 * 60 * 60 * 1000)))")
     (use msPerDay_pos setDate_getDate [of _ "-1"] in \<open>auto simp: msPerDay_def\<close>)

declare scheduledStreakLoop.simps [simp del]

definition calculateStreak ::
  "Date \<Rightarrow> DateString list \<Rightarrow> string list option \<Rightarrow> DateString option \<Rightarrow> int" where
  "calculateStreak now completions selectedDays targetDate =
     (if length completions = 0 then 0
      else
        let sortedCompletions = rev (sort completions);
            today = (case targetDate of Some t \<Rightarrow> t | None \<Rightarrow> getTodayString now);
            currentDate = parseLocal today;
            isTodayCompleted = today \<in> set sortedCompletions
        in if noSelectedDays selectedDays
           then dailyStreakLoop sortedCompletions
                  (setDate currentDate (getDate currentDate - 1))
                  (if isTodayCompleted then 1 else 0)
           else
             let todayDayName = dayNameOf currentDate;
                 isTodayScheduled = todayDayName \<in> set (the selectedDays)
             in scheduledStreakLoop now (the selectedDays) sortedCompletions
                  (setDate currentDate (getDate currentDate - 1))
                  (if isTodayScheduled \<and> isTodayCompleted then 1 else 0))"

text \<open>
  The days the backward walk reads, in the order it reads them: each
  \<^verbatim>\<open>expectedDate\<close> of the daily loop and each \<^verbatim>\<open>currentDateString\<close> of the scheduled
  loop. The functions follow the loops above step for step and only record the dates.
\<close>

fun dailyStreakInspected :: "DateString list \<Rightarrow> Date \<Rightarrow> DateString list" where
  "dailyStreakInspected [] currentDate = []"
| "dailyStreakInspected (completionDate # rest) currentDate =
     (let expectedDate = formatDate currentDate
      in if completionDate = expectedDate
         then expectedDate
                # dailyStreakInspected rest (setDate currentDate (getDate currentDate - 1))
         else [expectedDate])"

function scheduledStreakInspected ::
  "Date \<Rightarrow> string list \<Rightarrow> DateString list \<Rightarrow> Date \<Rightarrow> DateString list" where
  "scheduledStreakInspected now selectedDays sortedCompletions currentDate =
     (if dayNameOf currentDate \<in> set selectedDays
         \<and> formatDate currentDate \<notin> set sortedCompletions
      then [formatDate currentDate]
      else if setDate currentDate (getDate currentDate - 1)
                < now - 365 * 24 * 60 * 60 * 1000
      then [formatDate currentDate]
      else formatDate currentDate
             # scheduledStreakInspected now selectedDays sortedCompletions
                 (setDate currentDate (getDate currentDate - 1)))"
  by pat_completeness auto
termination
  by (relation "measure (\<lambda>(now, sel, cs, c). nat (c - (now - 365 * 24 * 60 * 60 * 1000)))")
     (use msPerDay_pos setDate_getDate [of _ "-1"] in \<open>auto simp: msPerDay_def\<close>)

declare scheduledStreakInspected.simps [simp del]

definition inspectedDays ::
  "Date \<Rightarrow> DateString list \<Rightarrow> string list option \<Rightarrow> DateString option \<Rightarrow> DateString list" where
  "inspectedDays now completions selectedDays targetDate =
     (if length completions = 0 then []
      else
        let sortedCompletions = rev (sort completions);
            today = (case targetDate of Some t \<Rightarrow> t | None \<Rightarrow> getTodayString now);
            currentDate = parseLocal today
        in if noSelectedDays selectedDays
           then dailyStreakInspected sortedCompletions
                  (setDate currentDate (getDate currentDate - 1))
           else scheduledStreakInspected now (the selectedDays) sortedCompletions
                  (setDate currentDate (getDate currentDate - 1)))"

subsection \<open>\<^verbatim>\<open>habitUtils.ts\<close>: \<^verbatim>\<open>calculateBestStreak\<close>\<close>

text \<open>
  Both \<^verbatim>\<open>for ... of\<close> loops are folds over the ascending completions; the state is
  (\<^verbatim>\<open>bestStreak\<close>, \<^verbatim>\<open>currentStreak\<close>, the previous date or \<^verbatim>\<open>null\<close>).
\<close>

definition bestDailyStep ::
  "int \<times> int \<times> Date option \<Rightarrow> DateString \<Rightarrow> int \<times> int \<times> Date option" where
  "bestDailyStep st completion =
     (case st of (bestStreak, currentStreak, previousDate) \<Rightarrow>
        let currentDate = parseLocal completion
        in case previousDate of
             None \<Rightarrow> (bestStreak, 1, Some currentDate)
           | Some p \<Rightarrow>
               let dayDifference =
                     Math_round (of_int (currentDate - p) / of_int (1000 * 60 * 60 * 24))
               in if dayDifference = 1
                  then (bestStreak, currentStreak + 1, Some currentDate)
                  else (max bestStreak currentStreak, 1, Some currentDate))"

text \<open>The inner \<^verbatim>\<open>while (expectedDate <= currentDate)\<close>: the next scheduled day.\<close>

function nextScheduledDate :: "string list \<Rightarrow> Date \<Rightarrow> Date \<Rightarrow> Date" where
  "nextScheduledDate selectedDays expectedDate currentDate =
     (if expectedDate \<le> currentDate
      then (if dayNameOf expectedDate \<in> set selectedDays then expectedDate
            else nextScheduledDate selectedDays
                   (setDate expectedDate (getDate expectedDate + 1)) currentDate)
      else expectedDate)"
  by pat_completeness auto
termination
  by (relation "measure (\<lambda>(sel, e, c). nat (c - e + 1))")
     (use msPerDay_pos in \<open>auto simp: setDate_getDate\<close>)

declare nextScheduledDate.simps [simp del]

definition bestScheduledStep ::
  "string list \<Rightarrow> int \<times> int \<times> Date option \<Rightarrow> DateString \<Rightarrow> int \<times> int \<times> Date option" where
  "bestScheduledStep selectedDays st completion =
     (case st of (bestStreak, currentStreak, lastScheduledDate) \<Rightarrow>
        let currentDate = parseLocal completion
        in if dayNameOf currentDate \<notin> set selectedDays
           then (bestStreak, currentStreak, lastScheduledDate)
           else case lastScheduledDate of
                  None \<Rightarrow> (bestStreak, 1, Some currentDate)
                | Some l \<Rightarrow>
                    let expectedDate =
                          nextScheduledDate selectedDays (setDate l (getDate l + 1)) currentDate
                    in if formatDate expectedDate = completion
                       then (bestStreak, currentStreak + 1, Some currentDate)
                       else (max bestStreak currentStreak, 1, Some currentDate))"

definition calculateBestStreak :: "DateString list \<Rightarrow> string list option \<Rightarrow> int" where
  "calculateBestStreak completions selectedDays =
     (if length completions = 0 then 0
      else
        let sortedCompletions = sort completions
        in if noSelectedDays selectedDays
           then (case foldl bestDailyStep (0, 0, None) sortedCompletions of
                   (bestStreak, currentStreak, previousDate) \<Rightarrow> max bestStreak currentStreak)
           else (case foldl (bestScheduledStep (the selectedDays)) (0, 0, None)
                        sortedCompletions of
                   (bestStreak, currentStreak, lastScheduledDate) \<Rightarrow>
                     max bestStreak currentStreak))"

subsection \<open>Habits\<close>

text \<open>
  The fields of \<^verbatim>\<open>Habit\<close> the analytics read or write (id, name, category, description
  and colours are display data). \<^verbatim>\<open>selectedDays\<close> may be absent on legacy rows.
\<close>

record Habit =
  createdDate :: DateString
  completions :: "DateString list"
  currentStreak :: int
  bestStreak :: int
  selectedDays :: "string list option"

record HabitStats =
  totalHabits :: int
  totalCompletions :: int
  averageCompletionRate :: int
  longestStreak :: int
  currentActiveStreaks :: int

text \<open>The period selector \<^verbatim>\<open>'week' | 'month' | number\<close>.\<close>

datatype Period = Week | Month | LastDays int

subsection \<open>\<^verbatim>\<open>dateUtils.ts\<close>: \<^verbatim>\<open>getCompletionRate\<close>\<close>

text \<open>
  The local constants of \<^verbatim>\<open>getCompletionRate\<close>, one definition each, in the order the
  source computes them.
\<close>

definition startDate :: "Date \<Rightarrow> Period \<Rightarrow> Date" where
  "startDate now period =
     (let today = now
      in case period of
           Week \<Rightarrow> getWeekStart today
         | Month \<Rightarrow> getMonthStart today
         | LastDays n \<Rightarrow> today - (n - 1) * 24 * 60 * 60 * 1000)"

definition effectiveStartDate :: "Date \<Rightarrow> Habit \<Rightarrow> Period \<Rightarrow> Date" where
  "effectiveStartDate now habit period =
     (let habitCreatedDate = parseLocal (createdDate habit)
      in if habitCreatedDate > startDate now period then habitCreatedDate
         else startDate now period)"

definition endDate :: "Date \<Rightarrow> Habit \<Rightarrow> Date" where
  "endDate now habit =
     (let today = now;
          todayString = getTodayString now;
          isTodayCompleted = todayString \<in> set (completions habit)
      in if isTodayCompleted then today else today - 24 * 60 * 60 * 1000)"

definition allElapsedDays :: "Date \<Rightarrow> Habit \<Rightarrow> Period \<Rightarrow> DateString list" where
  "allElapsedDays now habit period =
     getDateRange (effectiveStartDate now habit period) (endDate now habit)"

definition scheduledElapsedDays :: "Date \<Rightarrow> Habit \<Rightarrow> Period \<Rightarrow> DateString list" where
  "scheduledElapsedDays now habit period =
     filter (\<lambda>dateString.
        let date = parseLocal dateString;
            dayName = dayNameOf date
        in if noSelectedDays (selectedDays habit) then True
           else dayName \<in> set (the (selectedDays habit)))
      (allElapsedDays now habit period)"

definition completedDays :: "Date \<Rightarrow> Habit \<Rightarrow> Period \<Rightarrow> int" where
  "completedDays now habit period =
     int (length (filter (\<lambda>completion. completion \<in> set (scheduledElapsedDays now habit period))
                    (completions habit)))"

text \<open>The condition of the branch commented \<^verbatim>\<open>Handle edge case for new habits\<close>.\<close>

definition newHabitCompletedToday :: "Date \<Rightarrow> Habit \<Rightarrow> Period \<Rightarrow> bool" where
  "newHabitCompletedToday now habit period =
     (length (scheduledElapsedDays now habit period) = 1
      \<and> scheduledElapsedDays now habit period ! 0 = getTodayString now
      \<and> completedDays now habit period = 1)"

definition getCompletionRate :: "Date \<Rightarrow> Habit \<Rightarrow> Period \<Rightarrow> int" where
  "getCompletionRate now habit period =
     (if length (scheduledElapsedDays now habit period) = 0 then 0
      else if newHabitCompletedToday now habit period then 100
      else if length (scheduledElapsedDays now habit period) > 0
      then Math_round
             (of_int (completedDays now habit period)
                / of_int (int (length (scheduledElapsedDays now habit period))) * 100)
      else 0)"

definition updateHabitStreaks :: "Date \<Rightarrow> Habit \<Rightarrow> Habit" where
  "updateHabitStreaks now habit =
     (let cur = calculateStreak now (completions habit) (selectedDays habit) None;
          best = max (calculateBestStreak (completions habit) (selectedDays habit)) cur
      in habit\<lparr>currentStreak := cur, bestStreak := best\<rparr>)"

subsection \<open>\<^verbatim>\<open>useHabits.ts\<close>: \<^verbatim>\<open>getHabitStats\<close>\<close>

text \<open>
  \<^verbatim>\<open>reduce\<close> is a left fold; \<^verbatim>\<open>Math.max(...xs, 0)\<close> is the maximum of the spread
  values and the trailing 0.
\<close>

definition getHabitStats :: "Date \<Rightarrow> Habit list \<Rightarrow> HabitStats" where
  "getHabitStats now habits =
     (let n = int (length habits)
      in \<lparr> totalHabits = n,
           totalCompletions =
             foldl (\<lambda>sum habit. sum + int (length (completions habit))) 0 habits,
           averageCompletionRate =
             (if n > 0
              then Math_round
                     (of_int (foldl (\<lambda>sum habit. sum + getCompletionRate now habit Month)
                                0 habits)
                        / of_int n)
              else 0),
           longestStreak = foldr max (map bestStreak habits) 0,
           currentActiveStreaks = int (length (filter (\<lambda>h. currentStreak h > 0) habits)) \<rparr>)"

section \<open>Facts about the platform model\<close>

lemma getDay_range: "0 \<le> getDay t \<and> getDay t < 7"
  by (simp add: getDay_def)

lemma getWeekStart_eq: "getWeekStart d = d - ((getDay d + 6) mod 7) * msPerDay"
proof -
  let ?k = "- getDay d + (if getDay d = 0 then -6 else 1)"
  have "getDate d - getDay d + (if getDay d = 0 then -6 else 1) = getDate d + ?k"
    by simp
  then have "getWeekStart d = setDate d (getDate d + ?k)"
    by (simp only: getWeekStart_def Let_def)
  also have "\<dots> = d + ?k * msPerDay"
    by (rule setDate_getDate)
  also have "?k = - ((getDay d + 6) mod 7)"
    using getDay_range [of d] by (auto simp: mod_pos_pos_trivial) presburger
  finally show ?thesis by simp
qed

lemma setDate_prev: "setDate t (getDate t - 1) = t - msPerDay"
  using setDate_getDate [of t "-1"] by simp

lemma setDate_next: "setDate t (getDate t + 1) = t + msPerDay"
  using setDate_getDate [of t 1] by simp

lemma formatDate_yesterday:
  "formatDate (setDate (parseLocal today) (getDate (parseLocal today) - 1)) = today - 1"
  by (simp add: setDate_prev formatDate_def Day_sub_day Day_parseLocal)

text \<open>
  The loops, one conditional equation per path, with the date moved by whole days. They
  evaluate the loops on concrete dates and drive the inductions below.
\<close>

lemma getDateRange_step:
  "c \<le> e \<Longrightarrow> getDateRange c e = formatDate c # getDateRange (c + msPerDay) e"
  by (subst getDateRange.simps) (simp add: setDate_next)

lemma getDateRange_stop: "\<not> c \<le> e \<Longrightarrow> getDateRange c e = []"
  by (subst getDateRange.simps) simp

lemma nextScheduledDate_found:
  "e \<le> c \<Longrightarrow> dayNameOf e \<in> set sel \<Longrightarrow> nextScheduledDate sel e c = e"
  by (subst nextScheduledDate.simps) simp

lemma nextScheduledDate_skip:
  "e \<le> c \<Longrightarrow> dayNameOf e \<notin> set sel \<Longrightarrow>
     nextScheduledDate sel e c = nextScheduledDate sel (e + msPerDay) c"
  by (subst nextScheduledDate.simps) (simp add: setDate_next)

lemma nextScheduledDate_past: "\<not> e \<le> c \<Longrightarrow> nextScheduledDate sel e c = e"
  by (subst nextScheduledDate.simps) simp

lemma scheduledStreakLoop_gap:
  "dayNameOf c \<in> set sel \<Longrightarrow> formatDate c \<notin> set cs \<Longrightarrow>
     scheduledStreakLoop now sel cs c s = s"
  by (subst scheduledStreakLoop.simps) simp

lemma scheduledStreakLoop_hit:
  "dayNameOf c \<in> set sel \<Longrightarrow> formatDate c \<in> set cs \<Longrightarrow>
     scheduledStreakLoop now sel cs c s =
       (if c - msPerDay < now - 365 * msPerDay then s + 1
        else scheduledStreakLoop now sel cs (c - msPerDay) (s + 1))"
  by (subst scheduledStreakLoop.simps) (simp add: setDate_prev msPerDay_def)

lemma scheduledStreakLoop_skip:
  "dayNameOf c \<notin> set sel \<Longrightarrow>
     scheduledStreakLoop now sel cs c s =
       (if c - msPerDay < now - 365 * msPerDay then s
        else scheduledStreakLoop now sel cs (c - msPerDay) s)"
  by (subst scheduledStreakLoop.simps) (simp add: setDate_prev msPerDay_def)

text \<open>The dates used as concrete inputs below.\<close>

lemma isoDate_values:
  "isoDate 2024 6 3 = 19877" "isoDate 2024 6 7 = 19881" "isoDate 2024 6 8 = 19882"
  "isoDate 2024 6 9 = 19883" "isoDate 2024 6 10 = 19884" "isoDate 2024 6 1 = 19875"
  "isoDate 2024 6 20 = 19894" "isoDate 2024 6 19 = 19893" "isoDate 2024 6 2 = 19876"
  "isoDate 2023 6 10 = 19518" "isoDate 2021 9 14 = 18884" "isoDate 2024 7 10 = 19914"
  "isoDate 2023 5 7 = 19484" "isoDate 2023 6 12 = 19520"
  by code_simp+

lemmas eval_simps =
  isoDate_values calculateStreak_def calculateBestStreak_def noSelectedDays_def Let_def
  setDate_prev setDate_next
  scheduledStreakLoop_gap scheduledStreakLoop_hit scheduledStreakLoop_skip
  nextScheduledDate_found nextScheduledDate_skip nextScheduledDate_past
  getDateRange_step getDateRange_stop
  bestDailyStep_def bestScheduledStep_def Math_round_def
  dayNameOf_def dayNames_def getDay_def Day_def formatDate_def parseLocal_def
  getTodayString_def msPerDay_def

section \<open>Sorting\<close>

text \<open>The newest completion is first in the descending order.\<close>

lemma rev_sort_Cons_max:
  assumes "rev (sort xs) = x # rest" and "y \<in> set xs"
  shows "y \<le> (x :: int)"
proof -
  from assms(1) have eq: "sort xs = rev rest @ [x]"
    by (metis rev.simps(2) rev_rev_ident)
  have "sorted (sort xs)"
    by simp
  then have "sorted (rev rest @ [x])"
    unfolding eq .
  then have "\<forall>z\<in>set (rev rest). z \<le> x"
    by (simp add: sorted_append)
  moreover have "set (sort xs) = set xs"
    by simp
  then have "set xs = set (rev rest @ [x])"
    unfolding eq by simp
  ultimately show ?thesis
    using assms(2) by auto
qed

section \<open>Folds of \<^verbatim>\<open>getHabitStats\<close>\<close>

lemma foldl_add_sum: "foldl (\<lambda>sum h. sum + f h) a hs = a + sum_list (map f hs)"
  for a :: int
  by (induction hs arbitrary: a) simp_all

lemma foldr_max_Max: "foldr max xs (0::int) = Max (insert 0 (set xs))"
proof (induction xs)
  case Nil
  then show ?case by simp
next
  case (Cons x xs)
  have "insert 0 (set (x # xs)) = insert x (insert 0 (set xs))"
    by auto
  then have "Max (insert 0 (set (x # xs))) = Max (insert x (insert 0 (set xs)))"
    by (simp only:)
  also have "\<dots> = max x (Max (insert 0 (set xs)))"
    by (rule Max_insert) auto
  finally show ?case
    using Cons by simp
qed

lemma Max_insert_zero_nonneg:
  assumes "xs \<noteq> []" and "\<forall>x\<in>set xs. (0::int) \<le> x"
  shows "Max (insert 0 (set xs)) = Max (set xs)"
proof -
  have "Max (insert 0 (set xs)) = max 0 (Max (set xs))"
    using assms(1) by (intro Max_insert) auto
  moreover have "0 \<le> Max (set xs)"
    using assms by (simp add: Max_ge_iff) (meson all_not_in_conv set_empty)
  ultimately show ?thesis
    by simp
qed

section \<open>The window of \<^verbatim>\<open>getCompletionRate\<close>\<close>

lemma Day_mono: "c \<le> e \<Longrightarrow> Day c \<le> Day e"
  using msPerDay_pos by (simp add: Day_def zdiv_mono1)

lemma parseLocal_Day_le: "parseLocal (Day t) \<le> t"
proof -
  have "t = t div msPerDay * msPerDay + t mod msPerDay"
    by simp
  moreover have "0 \<le> t mod msPerDay"
    using msPerDay_pos by simp
  ultimately have "t div msPerDay * msPerDay \<le> t"
    by linarith
  then show ?thesis
    by (simp add: parseLocal_def Day_def)
qed

lemma getDateRange_bounds:
  "d \<in> set (getDateRange c e) \<Longrightarrow> Day c \<le> d \<and> d \<le> Day e"
proof (induction c e rule: getDateRange.induct)
  case (1 c e)
  show ?case
  proof (cases "c \<le> e")
    case True
    with "1.prems" have "d = Day c \<or> d \<in> set (getDateRange (c + msPerDay) e)"
      by (simp add: getDateRange_step formatDate_def)
    then show ?thesis
    proof
      assume "d = Day c"
      with True show ?thesis by (simp add: Day_mono)
    next
      assume "d \<in> set (getDateRange (c + msPerDay) e)"
      with "1.IH" True have "Day (c + msPerDay) \<le> d \<and> d \<le> Day e"
        by (simp add: setDate_next)
      then show ?thesis
        using Day_add_days [of c 1] by simp
    qed
  next
    case False
    with "1.prems" show ?thesis by (simp add: getDateRange_stop)
  qed
qed

lemma getDateRange_distinct: "distinct (getDateRange c e)"
proof (induction c e rule: getDateRange.induct)
  case (1 c e)
  show ?case
  proof (cases "c \<le> e")
    case True
    have "Day c \<notin> set (getDateRange (c + msPerDay) e)"
      using getDateRange_bounds [of "Day c" "c + msPerDay" e] Day_add_days [of c 1] by auto
    with "1.IH" True show ?thesis
      by (simp add: getDateRange_step formatDate_def setDate_next)
  next
    case False
    then show ?thesis by (simp add: getDateRange_stop)
  qed
qed

lemma getDateRange_hd: "c \<le> e \<Longrightarrow> hd (getDateRange c e) = formatDate c"
  by (simp add: getDateRange_step)

lemma scheduledElapsedDays_subset:
  "set (scheduledElapsedDays now habit period) \<subseteq> set (allElapsedDays now habit period)"
  by (auto simp: scheduledElapsedDays_def)

lemma scheduledElapsedDays_distinct: "distinct (scheduledElapsedDays now habit period)"
  by (simp add: scheduledElapsedDays_def allElapsedDays_def getDateRange_distinct)

lemma Day_endDate:
  "Day (endDate now habit) =
     (if getTodayString now \<in> set (completions habit) then getTodayString now
      else getTodayString now - 1)"
  using Day_sub_day [of now]
  by (simp add: endDate_def Let_def getTodayString_def formatDate_def msPerDay_def)

lemma Day_effectiveStartDate:
  "Day (effectiveStartDate now habit period) =
     max (Day (startDate now period)) (createdDate habit)"
proof -
  let ?s = "startDate now period" and ?c = "createdDate habit"
  have "parseLocal ?c > ?s \<longleftrightarrow> ?c > Day ?s"
  proof
    assume "parseLocal ?c > ?s"
    then have "Day ?s \<le> ?c" using Day_mono [of ?s "parseLocal ?c"] by (simp add: Day_parseLocal)
    moreover have "Day ?s \<noteq> ?c"
    proof
      assume "Day ?s = ?c"
      then have "parseLocal ?c \<le> ?s"
        using parseLocal_Day_le [of ?s] by simp
      with \<open>parseLocal ?c > ?s\<close> show False by simp
    qed
    ultimately show "?c > Day ?s" by simp
  next
    assume "?c > Day ?s"
    then have "\<not> parseLocal ?c \<le> ?s"
      using Day_mono [of "parseLocal ?c" ?s] by (auto simp: Day_parseLocal)
    then show "parseLocal ?c > ?s" by simp
  qed
  then show ?thesis
    by (auto simp: effectiveStartDate_def Let_def Day_parseLocal)
qed

lemma allElapsedDays_bounds:
  assumes "d \<in> set (allElapsedDays now habit period)"
  shows "createdDate habit \<le> d" and "Day (startDate now period) \<le> d"
    and "d \<le> getTodayString now"
    and "d = getTodayString now \<Longrightarrow> getTodayString now \<in> set (completions habit)"
proof -
  from assms have b: "Day (effectiveStartDate now habit period) \<le> d \<and> d \<le> Day (endDate now habit)"
    unfolding allElapsedDays_def by (rule getDateRange_bounds)
  then show "createdDate habit \<le> d" and "Day (startDate now period) \<le> d"
    by (simp_all add: Day_effectiveStartDate)
  from b show "d \<le> getTodayString now"
    by (simp add: Day_endDate split: if_splits)
  from b show "d = getTodayString now \<Longrightarrow> getTodayString now \<in> set (completions habit)"
    by (simp add: Day_endDate split: if_splits)
qed

lemma completedDays_le:
  assumes "distinct (completions habit)"
  shows "completedDays now habit period \<le> int (length (scheduledElapsedDays now habit period))"
proof -
  let ?S = "scheduledElapsedDays now habit period"
  let ?F = "filter (\<lambda>completion. completion \<in> set ?S) (completions habit)"
  have "distinct ?F"
    using assms by simp
  then have "length ?F = card (set ?F)"
    by (simp only: distinct_card)
  also have "\<dots> \<le> card (set ?S)"
    by (rule card_mono) auto
  also have "\<dots> \<le> length ?S"
    by (rule card_length)
  finally show ?thesis
    by (simp add: completedDays_def)
qed

lemma completedDays_nonneg: "0 \<le> completedDays now habit period"
  by (simp add: completedDays_def)

lemma Math_round_percentage:
  assumes "0 \<le> c" and "c \<le> n" and "0 < n"
  shows "0 \<le> Math_round (of_int c / of_int n * 100)"
    and "Math_round (of_int c / of_int n * 100) \<le> 100"
proof -
  let ?x = "(of_int c / of_int n * 100) :: rat"
  have lo: "0 \<le> ?x"
    using assms by simp
  have "(of_int c :: rat) \<le> of_int n" and "(0 :: rat) < of_int n"
    using assms by simp_all
  then have hi: "?x \<le> 100"
    by (simp add: pos_divide_le_eq)
  from lo show "0 \<le> Math_round ?x"
    by (simp add: Math_round_def)
  from hi have "?x + 1 / 2 < 101"
    by simp
  then have "\<lfloor>?x + 1 / 2\<rfloor> < 101"
    by (simp only: floor_less_iff of_int_numeral)
  then show "Math_round ?x \<le> 100"
    by (simp add: Math_round_def)
qed




section \<open>The backward walk of \<^verbatim>\<open>calculateStreak\<close>\<close>

lemma parseLocal_mod: "parseLocal k mod msPerDay = 0"
  by (simp add: parseLocal_def)

lemma parseLocal_prev: "parseLocal k - msPerDay = parseLocal (k - 1)"
  by (simp add: parseLocal_def algebra_simps)

lemma parseLocal_Day_midnight: "c mod msPerDay = 0 \<Longrightarrow> parseLocal (Day c) = c"
  using div_mult_mod_eq [of c msPerDay] by (simp add: parseLocal_def Day_def)

lemma dayNameOf_Day: "dayNameOf (parseLocal (Day c)) = dayNameOf c"
  by (simp add: dayNameOf_def getDay_def Day_parseLocal)

lemma bound_eq: "365 * 24 * 60 * 60 * 1000 = 365 * msPerDay"
  by (simp add: msPerDay_def)

lemma scheduledStreakInspected_gap:
  "dayNameOf c \<in> set sel \<Longrightarrow> formatDate c \<notin> set cs \<Longrightarrow>
     scheduledStreakInspected now sel cs c = [formatDate c]"
  by (subst scheduledStreakInspected.simps) simp

lemma scheduledStreakInspected_bound:
  "dayNameOf c \<notin> set sel \<or> formatDate c \<in> set cs \<Longrightarrow>
   c - msPerDay < now - 365 * msPerDay \<Longrightarrow>
     scheduledStreakInspected now sel cs c = [formatDate c]"
  by (subst scheduledStreakInspected.simps) (auto simp: setDate_prev msPerDay_def)

lemma scheduledStreakInspected_step:
  "dayNameOf c \<notin> set sel \<or> formatDate c \<in> set cs \<Longrightarrow>
   \<not> c - msPerDay < now - 365 * msPerDay \<Longrightarrow>
     scheduledStreakInspected now sel cs c
       = formatDate c # scheduledStreakInspected now sel cs (c - msPerDay)"
  by (subst scheduledStreakInspected.simps) (auto simp: setDate_prev msPerDay_def)

text \<open>Induction along the backward walk: it goes on only above the safety bound.\<close>

lemma walk_induct:
  assumes "\<And>c. (\<not> c - msPerDay < now - 365 * msPerDay \<Longrightarrow> P (c - msPerDay)) \<Longrightarrow> P c"
  shows "P c"
proof (induction c rule: measure_induct_rule [where f = "\<lambda>c. nat (c - (now - 365 * msPerDay))"])
  case (less c)
  show ?case
  proof (rule assms)
    assume "\<not> c - msPerDay < now - 365 * msPerDay"
    then have "nat (c - msPerDay - (now - 365 * msPerDay)) < nat (c - (now - 365 * msPerDay))"
      using msPerDay_pos by simp
    then show "P (c - msPerDay)"
      by (rule less.IH)
  qed
qed

text \<open>Every day the scheduled walk reads after the first is within the safety bound.\<close>

lemma scheduledStreakInspected_within:
  "d \<in> set (scheduledStreakInspected now sel cs c) \<Longrightarrow> c mod msPerDay = 0 \<Longrightarrow>
     d = Day c \<or> (d < Day c \<and> now - 365 * msPerDay \<le> parseLocal d)"
proof (induction c rule: walk_induct [where now = now])
  case (1 c)
  let ?stop = "dayNameOf c \<in> set sel \<and> formatDate c \<notin> set cs"
  let ?c' = "c - msPerDay"
  show ?case
  proof (cases "?stop \<or> ?c' < now - 365 * msPerDay")
    case True
    then consider (gap) ?stop | (bound) "\<not> ?stop" "?c' < now - 365 * msPerDay"
      by blast
    then have "scheduledStreakInspected now sel cs c = [formatDate c]"
    proof cases
      case gap
      then show ?thesis
        by (intro scheduledStreakInspected_gap) simp_all
    next
      case bound
      then show ?thesis
        by (intro scheduledStreakInspected_bound) blast+
    qed
    with "1.prems" show ?thesis
      by (simp add: formatDate_def)
  next
    case False
    then have go: "\<not> ?stop" "\<not> ?c' < now - 365 * msPerDay"
      by auto
    then have eq: "scheduledStreakInspected now sel cs c
        = formatDate c # scheduledStreakInspected now sel cs ?c'"
      by (intro scheduledStreakInspected_step) blast+
    have mid: "?c' mod msPerDay = 0"
      using "1.prems"(2) by (metis mod_diff_right_eq mod_self diff_zero)
    have day: "Day ?c' = Day c - 1"
      by (rule Day_sub_day)
    from "1.prems"(1) eq consider "d = Day c" | "d \<in> set (scheduledStreakInspected now sel cs ?c')"
      by (auto simp: formatDate_def)
    then show ?thesis
    proof cases
      case 1
      then show ?thesis by simp
    next
      case 2
      have "d = Day ?c' \<or> (d < Day ?c' \<and> now - 365 * msPerDay \<le> parseLocal d)"
        using go(2) 2 mid by (rule "1.IH")
      moreover have "now - 365 * msPerDay \<le> parseLocal (Day ?c')"
        using go(2) parseLocal_Day_midnight [OF mid] by simp
      ultimately show ?thesis
        using day by auto
    qed
  qed
qed

text \<open>The streak the scheduled loop returns is what it accumulated over the days it read.\<close>

lemma scheduledStreakLoop_accumulated:
  "scheduledStreakLoop now sel cs c s =
     s + int (length (filter (\<lambda>d. dayNameOf (parseLocal d) \<in> set sel \<and> d \<in> set cs)
                        (scheduledStreakInspected now sel cs c)))"
proof (induction c arbitrary: s rule: walk_induct [where now = now])
  case (1 c)
  have name: "dayNameOf (parseLocal (formatDate c)) = dayNameOf c"
    by (simp add: formatDate_def dayNameOf_Day)
  consider (gap) "dayNameOf c \<in> set sel" "formatDate c \<notin> set cs"
    | (hit) "dayNameOf c \<in> set sel" "formatDate c \<in> set cs"
    | (skip) "dayNameOf c \<notin> set sel"
    by blast
  then show ?case
  proof cases
    case gap
    then show ?thesis
      by (simp add: scheduledStreakLoop_gap scheduledStreakInspected_gap name)
  next
    case hit
    show ?thesis
    proof (cases "c - msPerDay < now - 365 * msPerDay")
      case True
      with hit show ?thesis
        by (simp add: scheduledStreakLoop_hit scheduledStreakInspected_bound name)
    next
      case False
      with hit "1.IH" [OF False, of "s + 1"] show ?thesis
        by (simp add: scheduledStreakLoop_hit scheduledStreakInspected_step name)
    qed
  next
    case skip
    show ?thesis
    proof (cases "c - msPerDay < now - 365 * msPerDay")
      case True
      with skip show ?thesis
        by (simp add: scheduledStreakLoop_skip scheduledStreakInspected_bound name)
    next
      case False
      with skip "1.IH" [OF False, of s] show ?thesis
        by (simp add: scheduledStreakLoop_skip scheduledStreakInspected_step name)
    qed
  qed
qed

lemma dailyStreakInspected_length: "length (dailyStreakInspected ys c) \<le> length ys"
  by (induction ys arbitrary: c) (auto simp: Let_def)

lemma scheduledStreakInspected_first:
  "formatDate c \<in> set (scheduledStreakInspected now sel cs c)"
  by (subst scheduledStreakInspected.simps) simp

text \<open>While every scheduled day is completed, the walk goes on down to the bound.\<close>

lemma scheduledStreakInspected_reaches:
  "c mod msPerDay = 0 \<Longrightarrow> k \<le> Day c \<Longrightarrow> now - 365 * msPerDay \<le> parseLocal k \<Longrightarrow>
   (\<forall>j. k < j \<and> j \<le> Day c \<longrightarrow> dayNameOf (parseLocal j) \<notin> set sel \<or> j \<in> set cs) \<Longrightarrow>
     k \<in> set (scheduledStreakInspected now sel cs c)"
proof (induction c rule: walk_induct [where now = now])
  case (1 c)
  show ?case
  proof (cases "k = Day c")
    case True
    then show ?thesis
      using scheduledStreakInspected_first [of c now sel cs] by (simp add: formatDate_def)
  next
    case False
    with "1.prems"(2) have lt: "k < Day c" by simp
    let ?c' = "c - msPerDay"
    have mid: "?c' mod msPerDay = 0"
      using "1.prems"(1) by (metis mod_diff_right_eq mod_self diff_zero)
    have day: "Day ?c' = Day c - 1"
      by (rule Day_sub_day)
    have "parseLocal k \<le> parseLocal (Day ?c')"
      using lt day msPerDay_pos by (simp add: parseLocal_def)
    then have nb: "\<not> ?c' < now - 365 * msPerDay"
      using "1.prems"(3) parseLocal_Day_midnight [OF mid] by simp
    have ok: "dayNameOf c \<notin> set sel \<or> formatDate c \<in> set cs"
      using "1.prems"(4) lt dayNameOf_Day [of c] by (auto simp: formatDate_def)
    have "k \<in> set (scheduledStreakInspected now sel cs ?c')"
      using nb mid
    proof (rule "1.IH")
      show "k \<le> Day ?c'" using lt day by simp
      show "now - 365 * msPerDay \<le> parseLocal k" by (rule "1.prems"(3))
      show "\<forall>j. k < j \<and> j \<le> Day ?c' \<longrightarrow> dayNameOf (parseLocal j) \<notin> set sel \<or> j \<in> set cs"
        using "1.prems"(4) day by simp
    qed
    then show ?thesis
      by (simp add: scheduledStreakInspected_step [OF ok nb])
  qed
qed

text \<open>On a run of consecutive completed days the daily loop reads every one of them.\<close>

lemma dailyStreakInspected_run:
  "Day c = b \<Longrightarrow> dailyStreakInspected (rev [a..b]) c = rev [a..b]"
proof (induction "nat (b + 1 - a)" arbitrary: b c)
  case 0
  then show ?case by simp
next
  case (Suc n)
  then have ab: "a \<le> b" by simp
  then have split: "rev [a..b] = b # rev [a..b - 1]"
    by (simp add: upto_rec2)
  have "dailyStreakInspected (rev [a..b - 1]) (c - msPerDay) = rev [a..b - 1]"
  proof (rule Suc.hyps(1))
    show "n = nat (b - 1 + 1 - a)" using Suc.hyps(2) by simp
    show "Day (c - msPerDay) = b - 1" using Suc.prems by (simp add: Day_sub_day)
  qed
  then show ?case
    using Suc.prems by (simp add: split Let_def formatDate_def setDate_prev)
qed

lemma sort_upto: "sort [a..b] = [a..b]"
  by (simp add: sorted_sort_id)

lemma inspectedDays_daily_run:
  assumes "a \<le> today - 1"
  shows "inspectedDays now [a..today - 1] (Some []) (Some today) = rev [a..today - 1]"
proof -
  have "[a..today - 1] \<noteq> []"
    using assms by simp
  moreover have "Day (parseLocal today - msPerDay) = today - 1"
    by (simp add: Day_sub_day Day_parseLocal)
  ultimately show ?thesis
    by (simp add: inspectedDays_def noSelectedDays_def Let_def sort_upto setDate_prev
          dailyStreakInspected_run)
qed

text \<open>The streak of the daily loop counts the completions that met the expected date.\<close>

lemma dailyStreakLoop_trace:
  "dailyStreakLoop ys c s =
     s + int (length (filter (\<lambda>(y, d). y = d) (zip ys (dailyStreakInspected ys c))))"
  by (induction ys arbitrary: c s) (simp_all add: Let_def)

lemma dailyStreakLoop_run:
  "Day c = b \<Longrightarrow> a \<le> b + 1 \<Longrightarrow> dailyStreakLoop (rev [a..b]) c s = s + (b + 1 - a)"
proof (induction "nat (b + 1 - a)" arbitrary: b c s)
  case 0
  then show ?case by simp
next
  case (Suc n)
  then have ab: "a \<le> b" by simp
  then have split: "rev [a..b] = b # rev [a..b - 1]"
    by (simp add: upto_rec2)
  have "dailyStreakLoop (rev [a..b - 1]) (c - msPerDay) (s + 1) = s + 1 + (b - 1 + 1 - a)"
  proof (rule Suc.hyps(1))
    show "n = nat (b - 1 + 1 - a)" using Suc.hyps(2) by simp
    show "Day (c - msPerDay) = b - 1" using Suc.prems(1) by (simp add: Day_sub_day)
    show "a \<le> b - 1 + 1" using ab by simp
  qed
  then show ?case
    using Suc.prems(1) by (simp add: split Let_def formatDate_def setDate_prev)
qed

text \<open>The three ways the walk leaves the window of 365 days before the date it is asked for.\<close>

lemma beyond_boundI: "x \<in> S \<Longrightarrow> x < b \<Longrightarrow> \<not> (\<forall>d\<in>S. (b :: int) \<le> d)"
  by (meson not_le)

lemma daily_walk_beyond_bound:
  assumes "a \<le> today - 1" and "a < today - 365"
  shows "\<not> (\<forall>d\<in>set (inspectedDays now [a..today - 1] (Some []) (Some today)). today - 365 \<le> d)"
proof -
  have "a \<in> set (inspectedDays now [a..today - 1] (Some []) (Some today))"
    using assms(1) by (simp add: inspectedDays_daily_run)
  then show ?thesis
    using assms(2) by (rule beyond_boundI)
qed

lemma scheduled_walk_beyond_asOf:
  assumes "sel \<noteq> []" and "a \<le> k" and "k \<le> asOf - 1" and "k < asOf - 365"
    and "now - 365 * msPerDay \<le> parseLocal k"
  shows "\<not> (\<forall>d\<in>set (inspectedDays now [a..asOf - 1] (Some sel) (Some asOf)). asOf - 365 \<le> d)"
proof -
  have "k \<in> set (scheduledStreakInspected now sel (rev (sort [a..asOf - 1]))
      (parseLocal (asOf - 1)))"
    using assms(2,3,5)
    by (intro scheduledStreakInspected_reaches) (simp_all add: parseLocal_mod Day_parseLocal)
  moreover have "[a..asOf - 1] \<noteq> []"
    using assms(2,3) by simp
  ultimately have "k \<in> set (inspectedDays now [a..asOf - 1] (Some sel) (Some asOf))"
    using assms(1)
    by (simp add: inspectedDays_def noSelectedDays_def Let_def setDate_prev parseLocal_prev)
  then show ?thesis
    using assms(4) by (rule beyond_boundI)
qed

lemma scheduled_walk_first_day:
  assumes "sel \<noteq> []" and "cs \<noteq> []" and "asOf - 1 < getTodayString now - 365"
  shows "\<not> (\<forall>d\<in>set (inspectedDays now cs (Some sel) (Some asOf)). getTodayString now - 365 \<le> d)"
proof -
  have "formatDate (parseLocal (asOf - 1))
      \<in> set (scheduledStreakInspected now sel (rev (sort cs)) (parseLocal (asOf - 1)))"
    by (rule scheduledStreakInspected_first)
  then have "asOf - 1 \<in> set (inspectedDays now cs (Some sel) (Some asOf))"
    using assms(1,2)
    by (simp add: inspectedDays_def noSelectedDays_def Let_def setDate_prev parseLocal_prev
          formatDate_def Day_parseLocal)
  then show ?thesis
    using assms(3) by (rule beyond_boundI)
qed

lemma inspectedDays_scheduled:
  assumes "\<not> noSelectedDays sel" and "cs \<noteq> []"
  shows "inspectedDays now cs sel t =
     scheduledStreakInspected now (the sel) (rev (sort cs))
       (parseLocal ((case t of Some a \<Rightarrow> a | None \<Rightarrow> getTodayString now) - 1))"
  using assms by (simp add: inspectedDays_def Let_def setDate_prev parseLocal_prev)

lemma calculateStreak_scheduled:
  assumes "\<not> noSelectedDays sel" and "cs \<noteq> []"
  shows "calculateStreak now cs sel t =
     (let today = (case t of Some a \<Rightarrow> a | None \<Rightarrow> getTodayString now)
      in scheduledStreakLoop now (the sel) (rev (sort cs)) (parseLocal (today - 1))
           (if dayNameOf (parseLocal today) \<in> set (the sel) \<and> today \<in> set cs then 1 else 0))"
  using assms by (simp add: calculateStreak_def Let_def setDate_prev parseLocal_prev)

section \<open>The best streak against the current streak\<close>

lemma Math_round_of_int: "Math_round (of_int n) = n"
proof -
  have "\<lfloor>(of_int n :: rat) + 1 / 2\<rfloor> = n"
    by (rule floor_unique) simp_all
  then show ?thesis
    by (simp add: Math_round_def)
qed

lemma Math_round_days:
  "Math_round ((rat_of_int (parseLocal a) - rat_of_int (parseLocal b)) / 86400000) = a - b"
proof -
  have "rat_of_int (parseLocal a) - rat_of_int (parseLocal b) = rat_of_int (a - b) * 86400000"
    by (simp add: parseLocal_def msPerDay_def algebra_simps)
  then have "(rat_of_int (parseLocal a) - rat_of_int (parseLocal b)) / 86400000
      = rat_of_int (a - b) * 86400000 / 86400000"
    by (simp only:)
  also have "\<dots> = rat_of_int (a - b)"
    by (rule nonzero_mult_div_cancel_right) simp
  finally show ?thesis
    by (simp only: Math_round_of_int)
qed

text \<open>One step of the daily fold, by the previous date.\<close>

lemma bestDailyStep_first:
  "bestDailyStep (b, k, None) y = (b, 1, Some (parseLocal y))"
  by (simp add: bestDailyStep_def)

lemma bestDailyStep_next:
  "bestDailyStep (b, k, Some (parseLocal p)) y =
     (if y - p = 1 then (b, k + 1, Some (parseLocal y))
      else (max b k, 1, Some (parseLocal y)))"
  by (simp add: bestDailyStep_def Let_def Math_round_days)

lemma bestDaily_state:
  "foldl bestDailyStep (0, 0, None) ys = (b, k, l) \<Longrightarrow>
     0 \<le> b \<and> (ys = [] \<longrightarrow> k = 0 \<and> l = None)
       \<and> (ys \<noteq> [] \<longrightarrow> 1 \<le> k \<and> l = Some (parseLocal (last ys)))"
proof (induction ys arbitrary: b k l rule: rev_induct)
  case Nil
  then show ?case by simp
next
  case (snoc y ys)
  obtain b' k' l' where st: "foldl bestDailyStep (0, 0, None) ys = (b', k', l')"
    by (cases "foldl bestDailyStep (0, 0, None) ys") auto
  note IH = snoc.IH [OF st]
  show ?case
  proof (cases "ys = []")
    case True
    with IH st snoc.prems show ?thesis
      by (auto simp: bestDailyStep_first)
  next
    case False
    with IH have l': "l' = Some (parseLocal (last ys))" and k': "1 \<le> k'" and b': "0 \<le> b'"
      by auto
    with st snoc.prems show ?thesis
      by (auto simp: bestDailyStep_next split: if_splits)
  qed
qed

text \<open>
  The daily loop of the current streak, run over the descending completions, never counts
  more than the run the best-streak fold holds after the same completions.
\<close>

lemma dailyStreakLoop_le_fold:
  "foldl bestDailyStep (0, 0, None) ys = (b, k, l) \<Longrightarrow>
     dailyStreakLoop (rev ys) c s \<le> s + k"
proof (induction ys arbitrary: b k l c s rule: rev_induct)
  case Nil
  then show ?case by simp
next
  case (snoc y ys)
  obtain b' k' l' where st: "foldl bestDailyStep (0, 0, None) ys = (b', k', l')"
    by (cases "foldl bestDailyStep (0, 0, None) ys") auto
  note inv = bestDaily_state [OF st]
  have k1: "1 \<le> k"
    using bestDaily_state [OF snoc.prems] by simp
  show ?case
  proof (cases "y = formatDate c")
    case False
    then show ?thesis
      using k1 by (simp add: Let_def)
  next
    case True
    then have run: "dailyStreakLoop (rev (ys @ [y])) c s
        = dailyStreakLoop (rev ys) (c - msPerDay) (s + 1)"
      by (simp add: Let_def setDate_prev)
    show ?thesis
    proof (cases "ys = []")
      case True
      with run k1 show ?thesis by simp
    next
      case False
      with inv have l': "l' = Some (parseLocal (last ys))"
        by simp
      show ?thesis
      proof (cases "y - last ys = 1")
        case True
        with snoc.prems st l' have "k = k' + 1"
          by (simp add: bestDailyStep_next)
        with snoc.IH [OF st, of "c - msPerDay" "s + 1"] run show ?thesis
          by simp
      next
        case gap: False
        from False obtain zs where zs: "rev ys = last ys # zs"
          by (cases ys rule: rev_cases) auto
        have "last ys \<noteq> formatDate (c - msPerDay)"
          using gap \<open>y = formatDate c\<close> by (simp add: formatDate_def Day_sub_day)
        then have "dailyStreakLoop (rev ys) (c - msPerDay) (s + 1) = s + 1"
          by (simp add: zs Let_def)
        with run k1 show ?thesis by simp
      qed
    qed
  qed
qed

lemma parseLocal_mono: "a \<le> b \<Longrightarrow> parseLocal a \<le> parseLocal b"
  using msPerDay_pos by (simp add: parseLocal_def mult_right_mono)

lemma parseLocal_next: "parseLocal k + msPerDay = parseLocal (k + 1)"
  by (simp add: parseLocal_def algebra_simps)

text \<open>
  The inner loop of the scheduled best streak stops on the completion itself exactly when
  no scheduled day lies between the last counted completion and it.
\<close>

lemma nextScheduledDate_hits:
  "e mod msPerDay = 0 \<Longrightarrow> c mod msPerDay = 0 \<Longrightarrow> e \<le> c \<Longrightarrow> dayNameOf c \<in> set sel \<Longrightarrow>
     (formatDate (nextScheduledDate sel e c) = Day c)
       = (\<forall>j. Day e \<le> j \<and> j < Day c \<longrightarrow> dayNameOf (parseLocal j) \<notin> set sel)"
proof (induction "nat (c - e)" arbitrary: e rule: less_induct)
  case less
  have eD: "parseLocal (Day e) = e" and cD: "parseLocal (Day c) = c"
    using less.prems by (simp_all add: parseLocal_Day_midnight)
  show ?case
  proof (cases "dayNameOf e \<in> set sel")
    case True
    then have nx: "nextScheduledDate sel e c = e"
      using less.prems(3) by (simp add: nextScheduledDate_found)
    show ?thesis
    proof (cases "Day e = Day c")
      case True
      then show ?thesis by (auto simp: nx formatDate_def)
    next
      case False
      moreover have "Day e \<le> Day c"
        using less.prems(3) by (rule Day_mono)
      ultimately have "Day e < Day c" by simp
      moreover have "dayNameOf (parseLocal (Day e)) \<in> set sel"
        using True by (simp add: dayNameOf_Day)
      ultimately show ?thesis
        using False by (auto simp: nx formatDate_def)
    qed
  next
    case False
    then have "e \<noteq> c"
      using less.prems(4) by auto
    then have "Day e \<noteq> Day c"
      using eD cD by metis
    moreover have "Day e \<le> Day c"
      using less.prems(3) by (rule Day_mono)
    ultimately have lt: "Day e < Day c" by simp
    have "parseLocal (Day e + 1) \<le> parseLocal (Day c)"
      using lt by (intro parseLocal_mono) simp
    then have le': "e + msPerDay \<le> c"
      using eD cD by (simp add: parseLocal_next [symmetric])
    have mid': "(e + msPerDay) mod msPerDay = 0"
      using less.prems(1) by simp
    have day': "Day (e + msPerDay) = Day e + 1"
      using Day_add_days [of e 1] by simp
    have "nat (c - (e + msPerDay)) < nat (c - e)"
      using le' msPerDay_pos by simp
    then have IH: "(formatDate (nextScheduledDate sel (e + msPerDay) c) = Day c)
        = (\<forall>j. Day e + 1 \<le> j \<and> j < Day c \<longrightarrow> dayNameOf (parseLocal j) \<notin> set sel)"
      using less.hyps [of "e + msPerDay"] mid' less.prems(2,4) le' day' by simp
    have un: "dayNameOf (parseLocal (Day e)) \<notin> set sel"
      using False by (simp add: dayNameOf_Day)
    have "(\<forall>j. Day e + 1 \<le> j \<and> j < Day c \<longrightarrow> dayNameOf (parseLocal j) \<notin> set sel)
        = (\<forall>j. Day e \<le> j \<and> j < Day c \<longrightarrow> dayNameOf (parseLocal j) \<notin> set sel)"
    proof (intro iffI allI impI)
      fix j
      assume a: "\<forall>j. Day e + 1 \<le> j \<and> j < Day c \<longrightarrow> dayNameOf (parseLocal j) \<notin> set sel"
        and j: "Day e \<le> j \<and> j < Day c"
      show "dayNameOf (parseLocal j) \<notin> set sel"
      proof (cases "j = Day e")
        case True
        with un show ?thesis by simp
      next
        case False
        with j a show ?thesis by simp
      qed
    next
      fix j
      assume "\<forall>j. Day e \<le> j \<and> j < Day c \<longrightarrow> dayNameOf (parseLocal j) \<notin> set sel"
        and "Day e + 1 \<le> j \<and> j < Day c"
      then show "dayNameOf (parseLocal j) \<notin> set sel" by simp
    qed
    with IH show ?thesis
      using False less.prems(3) by (simp add: nextScheduledDate_skip)
  qed
qed

text \<open>One step of the scheduled fold on a completion that falls on a scheduled day.\<close>

lemma bestScheduledStep_unscheduled:
  "dayNameOf (parseLocal y) \<notin> set sel \<Longrightarrow> bestScheduledStep sel st y = st"
  by (cases st) (simp add: bestScheduledStep_def)

lemma bestScheduledStep_first:
  "dayNameOf (parseLocal y) \<in> set sel \<Longrightarrow>
     bestScheduledStep sel (b, k, None) y = (b, 1, Some (parseLocal y))"
  by (simp add: bestScheduledStep_def)

lemma bestScheduledStep_next:
  assumes "dayNameOf (parseLocal y) \<in> set sel" and "p < y"
  shows "bestScheduledStep sel (b, k, Some (parseLocal p)) y =
     (if \<forall>j. p < j \<and> j < y \<longrightarrow> dayNameOf (parseLocal j) \<notin> set sel
      then (b, k + 1, Some (parseLocal y))
      else (max b k, 1, Some (parseLocal y)))"
proof -
  have "parseLocal (p + 1) \<le> parseLocal y"
    using assms(2) by (intro parseLocal_mono) simp
  then have le: "parseLocal p + msPerDay \<le> parseLocal y"
    by (simp add: parseLocal_next)
  have "(formatDate (nextScheduledDate sel (parseLocal p + msPerDay) (parseLocal y))
      = Day (parseLocal y))
    = (\<forall>j. Day (parseLocal p + msPerDay) \<le> j \<and> j < Day (parseLocal y)
        \<longrightarrow> dayNameOf (parseLocal j) \<notin> set sel)"
    using assms(1) le by (intro nextScheduledDate_hits) (simp_all add: parseLocal_mod)
  moreover have "Day (parseLocal p + msPerDay) = p + 1"
    using Day_add_days [of "parseLocal p" 1] by (simp add: Day_parseLocal)
  ultimately have "(formatDate (nextScheduledDate sel (parseLocal p + msPerDay) (parseLocal y)) = y)
    = (\<forall>j. p < j \<and> j < y \<longrightarrow> dayNameOf (parseLocal j) \<notin> set sel)"
    by (simp add: Day_parseLocal) (metis add1_zle_eq)
  then show ?thesis
    using assms(1) by (simp add: bestScheduledStep_def Let_def setDate_next)
qed

lemma bestScheduledStep_shape:
  assumes "dayNameOf (parseLocal y) \<in> set sel"
    and "bestScheduledStep sel (b, k, l) y = (b', k', l')"
    and "0 \<le> b" and "0 \<le> k"
  shows "0 \<le> b' \<and> 1 \<le> k' \<and> l' = Some (parseLocal y)"
  using assms
  by (cases l) (auto simp: bestScheduledStep_def Let_def split: if_splits)

lemma bestScheduled_filter:
  "foldl (bestScheduledStep sel) st xs
     = foldl (bestScheduledStep sel) st (filter (\<lambda>y. dayNameOf (parseLocal y) \<in> set sel) xs)"
  by (induction xs arbitrary: st) (simp_all add: bestScheduledStep_unscheduled)

lemma bestScheduled_state:
  "\<forall>x\<in>set ys. dayNameOf (parseLocal x) \<in> set sel \<Longrightarrow>
   foldl (bestScheduledStep sel) (0, 0, None) ys = (b, k, l) \<Longrightarrow>
     0 \<le> b \<and> 0 \<le> k \<and> (ys = [] \<longrightarrow> k = 0 \<and> l = None)
       \<and> (ys \<noteq> [] \<longrightarrow> 1 \<le> k \<and> l = Some (parseLocal (last ys)))"
proof (induction ys arbitrary: b k l rule: rev_induct)
  case Nil
  then show ?case by simp
next
  case (snoc y ys)
  obtain b' k' l' where st: "foldl (bestScheduledStep sel) (0, 0, None) ys = (b', k', l')"
    by (cases "foldl (bestScheduledStep sel) (0, 0, None) ys") auto
  have "0 \<le> b' \<and> 0 \<le> k'"
    using snoc.IH [OF _ st] snoc.prems(1) by simp
  moreover have "bestScheduledStep sel (b', k', l') y = (b, k, l)"
    using snoc.prems(2) st by simp
  moreover have "dayNameOf (parseLocal y) \<in> set sel"
    using snoc.prems(1) by simp
  ultimately have "0 \<le> b \<and> 1 \<le> k \<and> l = Some (parseLocal y)"
    using bestScheduledStep_shape by blast
  then show ?case by simp
qed

text \<open>
  The scheduled walk returns at once when every completed scheduled day below it is
  shielded by a scheduled day that is not completed.
\<close>

lemma scheduledStreakLoop_shielded:
  "\<forall>e. e \<le> Day c \<and> dayNameOf (parseLocal e) \<in> set sel \<and> e \<in> set zs \<longrightarrow>
      (\<exists>d. e < d \<and> d \<le> Day c \<and> dayNameOf (parseLocal d) \<in> set sel \<and> d \<notin> set zs) \<Longrightarrow>
     scheduledStreakLoop now sel zs c s = s"
proof (induction c rule: walk_induct [where now = now])
  case (1 c)
  show ?case
  proof (cases "dayNameOf c \<in> set sel")
    case True
    have "formatDate c \<notin> set zs"
    proof
      assume "formatDate c \<in> set zs"
      then have "\<exists>d. Day c < d \<and> d \<le> Day c \<and> dayNameOf (parseLocal d) \<in> set sel \<and> d \<notin> set zs"
        using "1.prems" True by (simp add: formatDate_def dayNameOf_Day)
      then show False by auto
    qed
    with True show ?thesis
      by (simp add: scheduledStreakLoop_gap)
  next
    case False
    show ?thesis
    proof (cases "c - msPerDay < now - 365 * msPerDay")
      case True
      with False show ?thesis by (simp add: scheduledStreakLoop_skip)
    next
      case nb: False
      have "scheduledStreakLoop now sel zs (c - msPerDay) s = s"
      proof (rule "1.IH" [OF nb], intro allI impI)
        fix e
        assume e: "e \<le> Day (c - msPerDay) \<and> dayNameOf (parseLocal e) \<in> set sel \<and> e \<in> set zs"
        then have "e \<le> Day c" by (simp add: Day_sub_day)
        with e "1.prems" obtain d where d: "e < d" "d \<le> Day c"
            "dayNameOf (parseLocal d) \<in> set sel" "d \<notin> set zs"
          by blast
        have "d \<noteq> Day c"
          using d(3) False by (auto simp: dayNameOf_Day)
        with d show "\<exists>d. e < d \<and> d \<le> Day (c - msPerDay)
            \<and> dayNameOf (parseLocal d) \<in> set sel \<and> d \<notin> set zs"
          by (auto simp: Day_sub_day)
      qed
      with False nb show ?thesis by (simp add: scheduledStreakLoop_skip)
    qed
  qed
qed

text \<open>
  Above the newest completed scheduled day the walk either stops with what it has or
  arrives at that day with what it has.
\<close>

lemma scheduledStreakLoop_descend:
  "y \<le> Day c \<Longrightarrow>
   \<forall>e. y < e \<and> e \<le> Day c \<longrightarrow> \<not> (dayNameOf (parseLocal e) \<in> set sel \<and> e \<in> set zs) \<Longrightarrow>
     scheduledStreakLoop now sel zs c s = s
     \<or> scheduledStreakLoop now sel zs c s
         = scheduledStreakLoop now sel zs (c - (Day c - y) * msPerDay) s"
proof (induction c rule: walk_induct [where now = now])
  case (1 c)
  show ?case
  proof (cases "y = Day c")
    case True
    then show ?thesis by simp
  next
    case False
    with "1.prems"(1) have lt: "y < Day c" by simp
    then have free: "\<not> (dayNameOf c \<in> set sel \<and> formatDate c \<in> set zs)"
      using "1.prems"(2) by (auto simp: formatDate_def dayNameOf_Day)
    show ?thesis
    proof (cases "dayNameOf c \<in> set sel")
      case True
      with free show ?thesis by (simp add: scheduledStreakLoop_gap)
    next
      case skip: False
      show ?thesis
      proof (cases "c - msPerDay < now - 365 * msPerDay")
        case True
        with skip show ?thesis by (simp add: scheduledStreakLoop_skip)
      next
        case nb: False
        have step: "scheduledStreakLoop now sel zs c s
            = scheduledStreakLoop now sel zs (c - msPerDay) s"
          using skip nb by (simp add: scheduledStreakLoop_skip)
        have "scheduledStreakLoop now sel zs (c - msPerDay) s = s
            \<or> scheduledStreakLoop now sel zs (c - msPerDay) s
               = scheduledStreakLoop now sel zs
                   (c - msPerDay - (Day (c - msPerDay) - y) * msPerDay) s"
          using lt "1.prems"(2) by (intro "1.IH" [OF nb]) (simp_all add: Day_sub_day)
        moreover have "c - msPerDay - (Day (c - msPerDay) - y) * msPerDay
            = c - (Day c - y) * msPerDay"
          by (simp add: Day_sub_day algebra_simps)
        ultimately show ?thesis
          using step by simp
      qed
    qed
  qed
qed

lemma strict_sorted_snoc_less: "sorted_wrt (<) (ys @ [y]) \<Longrightarrow> x \<in> set ys \<Longrightarrow> x < (y :: int)"
  by (simp add: sorted_wrt_append)

lemma strict_sorted_le_last:
  assumes "sorted_wrt (<) ys" and "x \<in> set ys"
  shows "x \<le> (last ys :: int)"
proof -
  from assms(2) have "ys \<noteq> []" by auto
  then have eq: "ys = butlast ys @ [last ys]" by simp
  then have "sorted_wrt (<) (butlast ys @ [last ys])"
    using assms(1) by simp
  then have "\<forall>z\<in>set (butlast ys). z < last ys"
    by (simp add: sorted_wrt_append)
  moreover have "x \<in> set (butlast ys) \<or> x = last ys"
    using assms(2) eq by (metis Un_iff empty_iff insert_iff list.set(1,2) set_append)
  ultimately show ?thesis by auto
qed

text \<open>
  After the walk has counted the newest scheduled completion \<open>y\<close> it goes on from the day
  before; what it then returns stays within the run the fold holds after \<open>y\<close>.
\<close>

lemma scheduledStreakLoop_after_hit:
  assumes srt: "sorted_wrt (<) (ys @ [y])"
    and sch: "\<forall>x\<in>set (ys @ [y]). dayNameOf (parseLocal x) \<in> set sel"
    and agree: "\<forall>d. d \<le> y - 1 \<and> dayNameOf (parseLocal d) \<in> set sel
                  \<longrightarrow> (d \<in> set zs \<longleftrightarrow> d \<in> set ys)"
    and dayc: "Day c = y - 1"
    and st': "foldl (bestScheduledStep sel) (0, 0, None) ys = (b', k', l')"
    and st: "foldl (bestScheduledStep sel) (0, 0, None) (ys @ [y]) = (b, k, l)"
    and IH: "\<And>c s. \<forall>x\<in>set ys. x \<le> Day c \<Longrightarrow>
               \<forall>d. d \<le> Day c \<and> dayNameOf (parseLocal d) \<in> set sel
                  \<longrightarrow> (d \<in> set zs \<longleftrightarrow> d \<in> set ys) \<Longrightarrow>
               scheduledStreakLoop now sel zs c s \<le> s + k'"
  shows "scheduledStreakLoop now sel zs c (s + 1) \<le> s + k"
proof -
  have schy: "dayNameOf (parseLocal y) \<in> set sel" and schys: "\<forall>x\<in>set ys. dayNameOf (parseLocal x) \<in> set sel"
    using sch by simp_all
  have inv': "0 \<le> b' \<and> 0 \<le> k' \<and> (ys = [] \<longrightarrow> k' = 0 \<and> l' = None)
       \<and> (ys \<noteq> [] \<longrightarrow> 1 \<le> k' \<and> l' = Some (parseLocal (last ys)))"
    using bestScheduled_state [OF schys st'] .
  have step: "bestScheduledStep sel (b', k', l') y = (b, k, l)"
    using st st' by simp
  show ?thesis
  proof (cases "ys = []")
    case True
    then have "k = 1"
      using step inv' schy by (simp add: bestScheduledStep_first)
    moreover have "scheduledStreakLoop now sel zs c (s + 1) = s + 1"
      using agree True dayc by (intro scheduledStreakLoop_shielded) auto
    ultimately show ?thesis by simp
  next
    case False
    let ?p = "last ys"
    have pin: "?p \<in> set ys" using False by simp
    then have py: "?p < y" using srt by (rule strict_sorted_snoc_less [rotated])
    have l': "l' = Some (parseLocal ?p)" using inv' False by simp
    have sys: "sorted_wrt (<) ys" using srt by (simp add: sorted_wrt_append)
    show ?thesis
    proof (cases "\<forall>j. ?p < j \<and> j < y \<longrightarrow> dayNameOf (parseLocal j) \<notin> set sel")
      case True
      then have "k = k' + 1"
        using step l' bestScheduledStep_next [OF schy py, of b' k'] by simp
      moreover have "scheduledStreakLoop now sel zs c (s + 1) \<le> s + 1 + k'"
      proof (rule IH)
        show "\<forall>x\<in>set ys. x \<le> Day c"
          using srt dayc strict_sorted_snoc_less [OF srt] by fastforce
        show "\<forall>d. d \<le> Day c \<and> dayNameOf (parseLocal d) \<in> set sel
            \<longrightarrow> (d \<in> set zs \<longleftrightarrow> d \<in> set ys)"
          using agree dayc by simp
      qed
      ultimately show ?thesis by simp
    next
      case False
      then obtain j where j: "?p < j" "j < y" "dayNameOf (parseLocal j) \<in> set sel"
        by auto
      have "k = 1"
        using step l' False bestScheduledStep_next [OF schy py, of b' k'] by simp
      moreover have "j \<notin> set ys"
        using strict_sorted_le_last [OF sys, of j] j(1) by auto
      then have jz: "j \<notin> set zs"
        using agree j by auto
      have "scheduledStreakLoop now sel zs c (s + 1) = s + 1"
      proof (rule scheduledStreakLoop_shielded, intro allI impI)
        fix e
        assume e: "e \<le> Day c \<and> dayNameOf (parseLocal e) \<in> set sel \<and> e \<in> set zs"
        then have "e \<in> set ys"
          using agree dayc by auto
        then have "e \<le> ?p"
          using sys by (rule strict_sorted_le_last [rotated])
        then have "e < j \<and> j \<le> Day c"
          using j dayc by simp
        with j(3) jz show "\<exists>d. e < d \<and> d \<le> Day c
            \<and> dayNameOf (parseLocal d) \<in> set sel \<and> d \<notin> set zs"
          by blast
      qed
      ultimately show ?thesis by simp
    qed
  qed
qed

text \<open>
  The scheduled walk never counts more than the run the best-streak fold holds after the
  scheduled completions up to the day the walk starts from.
\<close>

lemma scheduledStreakLoop_le_fold:
  "sorted_wrt (<) ys \<Longrightarrow>
   \<forall>x\<in>set ys. dayNameOf (parseLocal x) \<in> set sel \<Longrightarrow>
   foldl (bestScheduledStep sel) (0, 0, None) ys = (b, k, l) \<Longrightarrow>
   \<forall>x\<in>set ys. x \<le> Day c \<Longrightarrow>
   \<forall>d. d \<le> Day c \<and> dayNameOf (parseLocal d) \<in> set sel \<longrightarrow> (d \<in> set zs \<longleftrightarrow> d \<in> set ys) \<Longrightarrow>
     scheduledStreakLoop now sel zs c s \<le> s + k"
proof (induction ys arbitrary: b k l c s rule: rev_induct)
  case Nil
  then have "k = 0" by simp
  moreover have "scheduledStreakLoop now sel zs c s = s"
    using Nil.prems(5) by (intro scheduledStreakLoop_shielded) auto
  ultimately show ?case by simp
next
  case (snoc y ys)
  obtain b' k' l' where st': "foldl (bestScheduledStep sel) (0, 0, None) ys = (b', k', l')"
    by (cases "foldl (bestScheduledStep sel) (0, 0, None) ys") auto
  have sys: "sorted_wrt (<) ys" using snoc.prems(1) by (simp add: sorted_wrt_append)
  have schys: "\<forall>x\<in>set ys. dayNameOf (parseLocal x) \<in> set sel" using snoc.prems(2) by simp
  have schy: "dayNameOf (parseLocal y) \<in> set sel" using snoc.prems(2) by simp
  have k1: "1 \<le> k"
    using bestScheduled_state [OF snoc.prems(2,3)] by simp
  have yc: "y \<le> Day c" using snoc.prems(4) by simp
  have above: "\<forall>e. y < e \<and> e \<le> Day c \<longrightarrow> \<not> (dayNameOf (parseLocal e) \<in> set sel \<and> e \<in> set zs)"
  proof (intro allI impI notI)
    fix e
    assume e: "y < e \<and> e \<le> Day c" and "dayNameOf (parseLocal e) \<in> set sel \<and> e \<in> set zs"
    then have "e \<in> set (ys @ [y])"
      using snoc.prems(5) by blast
    then have "e \<le> y"
      using strict_sorted_snoc_less [OF snoc.prems(1), of e] by auto
    with e show False by simp
  qed
  let ?cy = "c - (Day c - y) * msPerDay"
  have "?cy = c + (y - Day c) * msPerDay"
    by (simp add: algebra_simps)
  then have daycy: "Day ?cy = y"
    by (simp only: Day_add_days)
  have yz: "y \<in> set zs"
    using snoc.prems(5) yc schy by simp
  have hit: "scheduledStreakLoop now sel zs ?cy s =
      (if ?cy - msPerDay < now - 365 * msPerDay then s + 1
       else scheduledStreakLoop now sel zs (?cy - msPerDay) (s + 1))"
  proof (rule scheduledStreakLoop_hit)
    show "dayNameOf ?cy \<in> set sel"
      using schy daycy dayNameOf_Day [of ?cy] by simp
    show "formatDate ?cy \<in> set zs"
      using yz daycy by (simp add: formatDate_def)
  qed
  have after: "scheduledStreakLoop now sel zs (?cy - msPerDay) (s + 1) \<le> s + k"
  proof (rule scheduledStreakLoop_after_hit [OF snoc.prems(1,2) _ _ st' snoc.prems(3)])
    show "Day (?cy - msPerDay) = y - 1"
      using daycy by (simp add: Day_sub_day)
    show "\<forall>d. d \<le> y - 1 \<and> dayNameOf (parseLocal d) \<in> set sel
        \<longrightarrow> (d \<in> set zs \<longleftrightarrow> d \<in> set ys)"
      using snoc.prems(5) yc by auto
    show "\<And>c s. \<forall>x\<in>set ys. x \<le> Day c \<Longrightarrow>
        \<forall>d. d \<le> Day c \<and> dayNameOf (parseLocal d) \<in> set sel
           \<longrightarrow> (d \<in> set zs \<longleftrightarrow> d \<in> set ys) \<Longrightarrow>
        scheduledStreakLoop now sel zs c s \<le> s + k'"
      using snoc.IH [OF sys schys st'] by blast
  qed
  from scheduledStreakLoop_descend [OF yc above, of now s]
  show ?case
  proof
    assume "scheduledStreakLoop now sel zs c s = s"
    with k1 show ?thesis by simp
  next
    assume "scheduledStreakLoop now sel zs c s = scheduledStreakLoop now sel zs ?cy s"
    with hit after k1 show ?thesis
      by (simp split: if_splits)
  qed
qed

lemma daily_streak_today_completed:
  assumes "noSelectedDays sel" and "today \<in> set cs"
  shows "calculateStreak now cs sel (Some today) = 1"
proof -
  from assms(2) have ne: "cs \<noteq> []" by auto
  have "length (rev (sort cs)) = length cs" by simp
  with ne obtain x rest where xr: "rev (sort cs) = x # rest"
    by (cases "rev (sort cs)") auto
  have "today \<le> x"
    using rev_sort_Cons_max [OF xr assms(2)] .
  then have "dailyStreakLoop (x # rest)
      (setDate (parseLocal today) (getDate (parseLocal today) - 1)) 1 = 1"
    by (simp add: formatDate_yesterday)
  moreover have "today \<in> set (rev (sort cs))"
    using assms(2) by simp
  ultimately show ?thesis
    using assms(1) ne xr by (simp add: calculateStreak_def Let_def)
qed

lemma best_ge_current_daily:
  assumes "noSelectedDays sel"
  shows "calculateStreak now cs sel (Some today) \<le> calculateBestStreak cs sel"
proof (cases "cs = []")
  case True
  then show ?thesis by (simp add: calculateStreak_def calculateBestStreak_def)
next
  case False
  obtain b k l where st: "foldl bestDailyStep (0, 0, None) (sort cs) = (b, k, l)"
    by (cases "foldl bestDailyStep (0, 0, None) (sort cs)") auto
  have "sort cs \<noteq> []"
    using False by (metis length_0_conv length_sort)
  then have k1: "1 \<le> k"
    using bestDaily_state [OF st] by simp
  have best: "calculateBestStreak cs sel = max b k"
    using assms False st by (simp add: calculateBestStreak_def Let_def)
  show ?thesis
  proof (cases "today \<in> set cs")
    case True
    then show ?thesis
      using daily_streak_today_completed [OF assms True, of now] best k1 by simp
  next
    case nt: False
    then have "calculateStreak now cs sel (Some today)
        = dailyStreakLoop (rev (sort cs)) (parseLocal today - msPerDay) 0"
      using assms False by (simp add: calculateStreak_def Let_def setDate_prev)
    also have "\<dots> \<le> 0 + k"
      using st by (rule dailyStreakLoop_le_fold)
    finally show ?thesis
      using best by simp
  qed
qed

lemma best_ge_current_scheduled:
  assumes "\<not> noSelectedDays sel" and "distinct cs" and "\<forall>c\<in>set cs. c \<le> today"
  shows "calculateStreak now cs sel (Some today) \<le> calculateBestStreak cs sel"
proof (cases "cs = []")
  case True
  then show ?thesis by (simp add: calculateStreak_def calculateBestStreak_def)
next
  case False
  define ds where "ds = the sel"
  define S where "S = (\<lambda>d. dayNameOf (parseLocal d) \<in> set ds)"
  define ys where "ys = filter S (sort cs)"
  define zs where "zs = rev (sort cs)"
  define c where "c = parseLocal (today - 1)"
  obtain b k l where st: "foldl (bestScheduledStep ds) (0, 0, None) ys = (b, k, l)"
    by (cases "foldl (bestScheduledStep ds) (0, 0, None) ys") auto
  have "foldl (bestScheduledStep ds) (0, 0, None) (sort cs) = (b, k, l)"
    using st bestScheduled_filter [of ds "(0, 0, None)" "sort cs"]
    by (simp add: ys_def S_def)
  then have best: "calculateBestStreak cs sel = max b k"
    using assms(1) False by (simp add: calculateBestStreak_def Let_def ds_def)
  have "sorted ys" and "distinct ys"
    using assms(2) sorted_filter [of "\<lambda>x. x" "sort cs" S] by (simp_all add: ys_def)
  then have srt: "sorted_wrt (<) ys"
    by (simp add: strict_sorted_iff)
  have sch: "\<forall>x\<in>set ys. dayNameOf (parseLocal x) \<in> set ds"
    by (simp add: ys_def S_def)
  have le: "\<And>x. x \<in> set ys \<Longrightarrow> x \<le> today"
    using assms(3) by (simp add: ys_def)
  have mem: "\<And>d. dayNameOf (parseLocal d) \<in> set ds \<Longrightarrow> (d \<in> set zs \<longleftrightarrow> d \<in> set ys)"
    by (simp add: ys_def zs_def S_def)
  have dayc: "Day c = today - 1"
    by (simp add: c_def Day_parseLocal)
  have tys: "today \<in> set ys \<longleftrightarrow> dayNameOf (parseLocal today) \<in> set ds \<and> today \<in> set cs"
    by (auto simp: ys_def S_def)
  have cur: "calculateStreak now cs sel (Some today) =
      scheduledStreakLoop now ds zs c
        (if dayNameOf (parseLocal today) \<in> set ds \<and> today \<in> set cs then 1 else 0)"
    using calculateStreak_scheduled [OF assms(1) False, of now "Some today"]
    by (simp add: Let_def ds_def zs_def c_def)
  show ?thesis
  proof (cases "today \<in> set ys")
    case True
    then have ne: "ys \<noteq> []" by (metis empty_iff list.set(1))
    then have "last ys \<le> today"
      using le last_in_set by blast
    moreover have "today \<le> last ys"
      using srt True by (rule strict_sorted_le_last)
    ultimately have lst: "last ys = today" by simp
    define ys' where "ys' = butlast ys"
    have split: "ys = ys' @ [today]"
      using ne lst by (simp add: ys'_def) (metis append_butlast_last_id)
    obtain b' k' l' where st': "foldl (bestScheduledStep ds) (0, 0, None) ys' = (b', k', l')"
      by (cases "foldl (bestScheduledStep ds) (0, 0, None) ys'") auto
    have srt': "sorted_wrt (<) (ys' @ [today])"
      using srt by (simp only: split)
    have sch': "\<forall>x\<in>set (ys' @ [today]). dayNameOf (parseLocal x) \<in> set ds"
      using sch by (simp only: split)
    have stt: "foldl (bestScheduledStep ds) (0, 0, None) (ys' @ [today]) = (b, k, l)"
      using st by (simp only: split)
    have s1: "sorted_wrt (<) ys'"
      using srt' by (simp add: sorted_wrt_append)
    have s2: "\<forall>x\<in>set ys'. dayNameOf (parseLocal x) \<in> set ds"
      using sch' by simp
    have "scheduledStreakLoop now ds zs c (0 + 1) \<le> 0 + k"
    proof (rule scheduledStreakLoop_after_hit [OF srt' sch' _ dayc st' stt])
      show "\<forall>d. d \<le> today - 1 \<and> dayNameOf (parseLocal d) \<in> set ds
          \<longrightarrow> (d \<in> set zs \<longleftrightarrow> d \<in> set ys')"
      proof (intro allI impI)
        fix d
        assume d: "d \<le> today - 1 \<and> dayNameOf (parseLocal d) \<in> set ds"
        then have "d \<in> set zs \<longleftrightarrow> d \<in> set ys"
          using mem by simp
        also have "\<dots> \<longleftrightarrow> d \<in> set ys' \<or> d = today"
          by (auto simp: split)
        also have "\<dots> \<longleftrightarrow> d \<in> set ys'"
          using d by auto
        finally show "d \<in> set zs \<longleftrightarrow> d \<in> set ys'" .
      qed
      show "\<And>c s. \<forall>x\<in>set ys'. x \<le> Day c \<Longrightarrow>
          \<forall>d. d \<le> Day c \<and> dayNameOf (parseLocal d) \<in> set ds
             \<longrightarrow> (d \<in> set zs \<longleftrightarrow> d \<in> set ys') \<Longrightarrow>
          scheduledStreakLoop now ds zs c s \<le> s + k'"
        by (rule scheduledStreakLoop_le_fold [OF s1 s2 st'])
    qed
    moreover have "dayNameOf (parseLocal today) \<in> set ds \<and> today \<in> set cs"
      using True tys by simp
    then have "calculateStreak now cs sel (Some today) = scheduledStreakLoop now ds zs c 1"
      using cur by (simp only: if_True simp_thms)
    ultimately show ?thesis
      using best by simp
  next
    case False
    have "\<forall>x\<in>set ys. x \<le> Day c"
    proof
      fix x
      assume x: "x \<in> set ys"
      then have "x \<le> today" by (rule le)
      moreover have "x \<noteq> today" using x False by auto
      ultimately show "x \<le> Day c" using dayc by simp
    qed
    moreover have "\<forall>d. d \<le> Day c \<and> dayNameOf (parseLocal d) \<in> set ds
        \<longrightarrow> (d \<in> set zs \<longleftrightarrow> d \<in> set ys)"
      using mem by simp
    ultimately have "scheduledStreakLoop now ds zs c 0 \<le> 0 + k"
      by (rule scheduledStreakLoop_le_fold [OF srt sch st])
    moreover have "\<not> (dayNameOf (parseLocal today) \<in> set ds \<and> today \<in> set cs)"
      using False tys by simp
    then have "calculateStreak now cs sel (Some today) = scheduledStreakLoop now ds zs c 0"
      using cur by (simp only: if_False simp_thms)
    ultimately show ?thesis
      using best by simp
  qed
qed

section \<open>Claims\<close>

text \<open>
  C1. A daily habit completed today, with the days before completed too: the claim says
  the streak is the length of the run. The daily loop starts at the first entry of the
  descending completions, which is today (or a later date) and never the expected
  yesterday, so it stops at once: whenever today is completed the daily branch returns 1,
  whatever the run behind it.
\<close>

theorem C1_daily_streak_completed_today:
  assumes "noSelectedDays sel" and "today \<in> set cs"
  shows "calculateStreak now cs sel (Some today) = 1"
  using assms by (rule daily_streak_today_completed)

theorem C1_daily_streak_completed_today_witness:
  "calculateStreak (parseLocal (isoDate 2024 6 10) + 5000)
     [isoDate 2024 6 10, isoDate 2024 6 9] (Some []) (Some (isoDate 2024 6 10)) = 1"
  using C1_daily_streak_completed_today
    [of "Some []" "isoDate 2024 6 10" "[isoDate 2024 6 10, isoDate 2024 6 9]"
        "parseLocal (isoDate 2024 6 10) + 5000"]
  by (simp add: noSelectedDays_def)

text \<open>
  The scheduled branch, on the same completions with every weekday selected, counts the
  two days.
\<close>

lemma scheduled_streak_counts_run:
  "calculateStreak (parseLocal (isoDate 2024 6 10) + 5000)
     [isoDate 2024 6 10, isoDate 2024 6 9]
     (Some [''monday'', ''tuesday'', ''wednesday'', ''thursday'', ''friday'', ''saturday'',
            ''sunday''])
     (Some (isoDate 2024 6 10)) = 2"
  by (simp add: eval_simps)

text \<open>
  C2. For completions that hold no date twice and lie between the creation date and
  today, and for every schedule (absent, empty or any list of weekday names), the best
  streak is at least the current streak computed for today, whatever the clock shows.
\<close>

theorem C2_best_ge_current:
  assumes "distinct cs" and "\<forall>c\<in>set cs. created \<le> c \<and> c \<le> today"
  shows "calculateStreak now cs sel (Some today) \<le> calculateBestStreak cs sel"
proof (cases "noSelectedDays sel")
  case True
  then show ?thesis by (rule best_ge_current_daily)
next
  case False
  moreover have "\<forall>c\<in>set cs. c \<le> today"
    using assms(2) by simp
  ultimately show ?thesis
    using assms(1) by (intro best_ge_current_scheduled)
qed

theorem C2_best_ge_current_witness:
  "calculateStreak (parseLocal (isoDate 2024 6 10) + 5000)
      [isoDate 2024 6 7, isoDate 2024 6 8, isoDate 2024 6 9]
      (Some [''friday'', ''saturday'', ''sunday'']) (Some (isoDate 2024 6 10)) = 3
   \<and> calculateBestStreak [isoDate 2024 6 7, isoDate 2024 6 8, isoDate 2024 6 9]
      (Some [''friday'', ''saturday'', ''sunday'']) = 3"
  using C2_best_ge_current [where cs = "[isoDate 2024 6 7, isoDate 2024 6 8, isoDate 2024 6 9]"
      and created = "isoDate 2024 6 1" and today = "isoDate 2024 6 10"
      and now = "parseLocal (isoDate 2024 6 10) + 5000"
      and sel = "Some [''friday'', ''saturday'', ''sunday'']"]
  by (simp add: eval_simps)

text \<open>
  C3, as stated: a single completion gives a best streak of at least 1 under every
  schedule. It fails when the only completion falls on an unscheduled weekday
  (2024-06-09 is a Sunday): the scheduled loop skips it.
\<close>

theorem C3_counterexample:
  "\<not> 1 \<le> calculateBestStreak [isoDate 2024 6 9] (Some [''monday''])"
  by (simp add: eval_simps)

text \<open>
  C3, amended. For a single completion, the best streak is 1 when the habit is daily
  (no selected days) or the completion falls on a selected weekday, and 0 otherwise.
\<close>

theorem C3_single_completion:
  "calculateBestStreak [d] sel =
     (if noSelectedDays sel \<or> dayNameOf (parseLocal d) \<in> set (the sel) then 1 else 0)"
  by (simp add: calculateBestStreak_def bestDailyStep_def bestScheduledStep_def Let_def)

theorem C3_single_completion_witness:
  "calculateBestStreak [isoDate 2024 6 10] (Some [''monday'']) = 1
   \<and> calculateBestStreak [isoDate 2024 6 10] None = 1
   \<and> calculateBestStreak [isoDate 2024 6 10] (Some [''tuesday'']) = 0"
  using C3_single_completion [of "isoDate 2024 6 10" "Some [''monday'']"]
    C3_single_completion [of "isoDate 2024 6 10" None]
    C3_single_completion [of "isoDate 2024 6 10" "Some [''tuesday'']"]
  by (simp add: eval_simps)

text \<open>
  C4. For a habit whose completions hold no date twice, and every period selector
  (week, month or a number of days), the completion rate is an integer between 0 and
  100. The quotient is taken on exact rationals; the bounds do not depend on how a
  floating-point quotient is rounded, since that rounding is monotone.
\<close>

theorem C4_getCompletionRate_bounds:
  assumes "distinct (completions habit)"
  shows "0 \<le> getCompletionRate now habit period \<and> getCompletionRate now habit period \<le> 100"
proof (cases "length (scheduledElapsedDays now habit period) = 0")
  case True
  then show ?thesis by (simp add: getCompletionRate_def)
next
  case False
  then have "0 < int (length (scheduledElapsedDays now habit period))"
    by simp
  then show ?thesis
    using Math_round_percentage [OF completedDays_nonneg completedDays_le [OF assms]]
    by (simp add: getCompletionRate_def)
qed

theorem C4_getCompletionRate_bounds_witness:
  "getCompletionRate (parseLocal (isoDate 2024 6 20) + 5000)
     \<lparr> createdDate = isoDate 2024 6 10,
        completions = [isoDate 2024 6 5, isoDate 2024 6 12],
        currentStreak = 0, bestStreak = 0, selectedDays = Some [] \<rparr> Month = 10"
  using C4_getCompletionRate_bounds
    [where now = "parseLocal (isoDate 2024 6 20) + 5000" and period = Month
       and habit = "\<lparr> createdDate = isoDate 2024 6 10,
         completions = [isoDate 2024 6 5, isoDate 2024 6 12],
         currentStreak = 0, bestStreak = 0, selectedDays = Some [] \<rparr>"]
  by code_simp




text \<open>
  C6. The window of \<open>getCompletionRate\<close> starts at the later of the period start and the
  creation date, as instants and as days; when the window is not empty its first day is
  that day; no scheduled elapsed day (the denominator) and no counted completion (the
  numerator) lies before the creation date. The witness is the scenario of the
  specification: created 2024-06-10, month starting 2024-06-01, a completion on
  2024-06-05 that is not counted.
\<close>

theorem C6_effective_start:
  "effectiveStartDate now habit period
      = max (startDate now period) (parseLocal (createdDate habit))
   \<and> formatDate (effectiveStartDate now habit period)
      = max (formatDate (startDate now period)) (createdDate habit)
   \<and> (allElapsedDays now habit period \<noteq> [] \<longrightarrow>
        hd (allElapsedDays now habit period)
          = max (formatDate (startDate now period)) (createdDate habit))
   \<and> (\<forall>d\<in>set (scheduledElapsedDays now habit period). createdDate habit \<le> d)
   \<and> (\<forall>c\<in>set (filter (\<lambda>completion. completion \<in> set (scheduledElapsedDays now habit period))
                  (completions habit)). createdDate habit \<le> c)"
proof -
  have inst: "effectiveStartDate now habit period
      = max (startDate now period) (parseLocal (createdDate habit))"
    by (simp add: effectiveStartDate_def Let_def max_def)
  have day: "formatDate (effectiveStartDate now habit period)
      = max (formatDate (startDate now period)) (createdDate habit)"
    by (simp add: formatDate_def Day_effectiveStartDate)
  have hd: "allElapsedDays now habit period \<noteq> [] \<longrightarrow>
      hd (allElapsedDays now habit period)
        = max (formatDate (startDate now period)) (createdDate habit)"
  proof
    assume ne: "allElapsedDays now habit period \<noteq> []"
    then have "effectiveStartDate now habit period \<le> endDate now habit"
      using getDateRange_stop [of "effectiveStartDate now habit period" "endDate now habit"]
      by (auto simp: allElapsedDays_def)
    then have "hd (allElapsedDays now habit period)
        = formatDate (effectiveStartDate now habit period)"
      unfolding allElapsedDays_def by (rule getDateRange_hd)
    with day show "hd (allElapsedDays now habit period)
        = max (formatDate (startDate now period)) (createdDate habit)"
      by simp
  qed
  have den: "\<forall>d\<in>set (scheduledElapsedDays now habit period). createdDate habit \<le> d"
    using scheduledElapsedDays_subset [of now habit period] allElapsedDays_bounds(1) [of _ now habit period]
    by blast
  then have num: "\<forall>c\<in>set (filter (\<lambda>completion. completion \<in> set (scheduledElapsedDays now habit period))
      (completions habit)). createdDate habit \<le> c"
    by simp
  from inst day hd den num show ?thesis
    by blast
qed

theorem C6_effective_start_witness:
  "formatDate (startDate (parseLocal (isoDate 2024 6 20) + 5000) Month) = isoDate 2024 6 1
   \<and> formatDate (effectiveStartDate (parseLocal (isoDate 2024 6 20) + 5000)
       \<lparr> createdDate = isoDate 2024 6 10,
        completions = [isoDate 2024 6 5, isoDate 2024 6 12],
        currentStreak = 0, bestStreak = 0, selectedDays = Some [] \<rparr> Month)
     = isoDate 2024 6 10
   \<and> scheduledElapsedDays (parseLocal (isoDate 2024 6 20) + 5000)
       \<lparr> createdDate = isoDate 2024 6 10,
        completions = [isoDate 2024 6 5, isoDate 2024 6 12],
        currentStreak = 0, bestStreak = 0, selectedDays = Some [] \<rparr> Month
     = [isoDate 2024 6 10 ..isoDate 2024 6 19]
   \<and> completedDays (parseLocal (isoDate 2024 6 20) + 5000)
       \<lparr> createdDate = isoDate 2024 6 10,
        completions = [isoDate 2024 6 5, isoDate 2024 6 12],
        currentStreak = 0, bestStreak = 0, selectedDays = Some [] \<rparr> Month = 1"
  using C6_effective_start
    [where now = "parseLocal (isoDate 2024 6 20) + 5000" and period = Month
       and habit = "\<lparr> createdDate = isoDate 2024 6 10,
         completions = [isoDate 2024 6 5, isoDate 2024 6 12],
         currentStreak = 0, bestStreak = 0, selectedDays = Some [] \<rparr>"]
  by code_simp

text \<open>
  C7, as stated: for every completion set, schedule and asOf date the walk never reads a
  day more than 365 days before today. Three inputs show where it fails. A daily habit
  with 366 consecutive completions up to yesterday is walked to its first day, 366 days
  back: the daily loop has no safety check. A scheduled habit asked for a date 30 days
  ahead of the clock is walked to 394 days before that date: the safety check measures
  from \<^verbatim>\<open>Date.now()\<close>, not from the date asked for. Asked for a date 1000 days
  behind the clock, the walk still reads the day before it.
\<close>

theorem C7_counterexample:
  "\<not> (\<forall>d\<in>set (inspectedDays (parseLocal (isoDate 2024 6 10) + 5000)
                  [isoDate 2023 6 10 ..isoDate 2024 6 10 - 1] (Some [])
                  (Some (isoDate 2024 6 10))).
         isoDate 2024 6 10 - 365 \<le> d)
   \<and> \<not> (\<forall>d\<in>set (inspectedDays (parseLocal (isoDate 2024 6 10) + 5000)
                  [isoDate 2023 5 7 ..isoDate 2024 7 10 - 1] (Some [''monday''])
                  (Some (isoDate 2024 7 10))).
         isoDate 2024 7 10 - 365 \<le> d)
   \<and> \<not> (\<forall>d\<in>set (inspectedDays (parseLocal (isoDate 2024 6 10) + 5000)
                  [isoDate 2024 6 9] (Some [''monday'']) (Some (isoDate 2021 9 14))).
         getTodayString (parseLocal (isoDate 2024 6 10) + 5000) - 365 \<le> d)"
proof (intro conjI)
  show "\<not> (\<forall>d\<in>set (inspectedDays (parseLocal (isoDate 2024 6 10) + 5000)
      [isoDate 2023 6 10 ..isoDate 2024 6 10 - 1] (Some []) (Some (isoDate 2024 6 10))).
      isoDate 2024 6 10 - 365 \<le> d)"
    by (rule daily_walk_beyond_bound) (simp_all add: isoDate_values)
next
  show "\<not> (\<forall>d\<in>set (inspectedDays (parseLocal (isoDate 2024 6 10) + 5000)
      [isoDate 2023 5 7 ..isoDate 2024 7 10 - 1] (Some [''monday'']) (Some (isoDate 2024 7 10))).
      isoDate 2024 7 10 - 365 \<le> d)"
    by (rule scheduled_walk_beyond_asOf [where k = "isoDate 2023 6 12"])
      (simp_all add: isoDate_values parseLocal_def msPerDay_def)
next
  have "getTodayString (parseLocal (isoDate 2024 6 10) + 5000) = isoDate 2024 6 10"
    by (simp add: isoDate_values getTodayString_def formatDate_def Day_def parseLocal_def
          msPerDay_def)
  then show "\<not> (\<forall>d\<in>set (inspectedDays (parseLocal (isoDate 2024 6 10) + 5000)
      [isoDate 2024 6 9] (Some [''monday'']) (Some (isoDate 2021 9 14))).
      getTodayString (parseLocal (isoDate 2024 6 10) + 5000) - 365 \<le> d)"
    by (intro scheduled_walk_first_day) (simp_all add: isoDate_values)
qed

text \<open>A daily habit completed on each of the 366 days before today has a streak of 366.\<close>

lemma daily_streak_beyond_365:
  "calculateStreak (parseLocal (isoDate 2024 6 10) + 5000)
     [isoDate 2023 6 10 ..isoDate 2024 6 10 - 1] (Some []) (Some (isoDate 2024 6 10)) = 366"
proof -
  have ne: "[isoDate 2023 6 10 ..isoDate 2024 6 10 - 1] \<noteq> []"
    by (simp add: isoDate_values)
  have nt: "isoDate 2024 6 10 \<notin> set [isoDate 2023 6 10 ..isoDate 2024 6 10 - 1]"
    by simp
  have "dailyStreakLoop (rev [isoDate 2023 6 10 ..isoDate 2024 6 10 - 1])
      (parseLocal (isoDate 2024 6 10) - msPerDay) 0
      = 0 + (isoDate 2024 6 10 - 1 + 1 - isoDate 2023 6 10)"
    by (rule dailyStreakLoop_run) (simp_all add: Day_sub_day Day_parseLocal isoDate_values)
  then show ?thesis
    using ne nt
    by (simp add: calculateStreak_def noSelectedDays_def Let_def sort_upto setDate_prev
          isoDate_values)
qed

text \<open>
  C7, amended. The walk always ends (the loops are total functions). For a daily habit
  it reads at most as many days as there are completions. For a habit with selected
  days, asked for the current date (asOf absent or equal to the clock's date), every day
  it reads is before today and at most 365 days before it. For a habit with selected
  days and any asOf, the result is the streak accumulated when the walk stops: 1 for a
  scheduled and completed today, plus one for each day read that is scheduled and
  completed.
\<close>

theorem C7_walk_bounded:
  "(noSelectedDays sel \<longrightarrow> length (inspectedDays now cs sel t) \<le> length cs)
   \<and> (\<not> noSelectedDays sel \<and> (t = None \<or> t = Some (getTodayString now)) \<longrightarrow>
        (\<forall>d\<in>set (inspectedDays now cs sel t).
            getTodayString now - 365 \<le> d \<and> d < getTodayString now))
   \<and> (\<not> noSelectedDays sel \<longrightarrow>
        calculateStreak now cs sel t =
          (let today = (case t of Some a \<Rightarrow> a | None \<Rightarrow> getTodayString now)
           in (if dayNameOf (parseLocal today) \<in> set (the sel) \<and> today \<in> set cs then 1 else 0)
              + int (length (filter (\<lambda>d. dayNameOf (parseLocal d) \<in> set (the sel) \<and> d \<in> set cs)
                               (inspectedDays now cs sel t)))))"
proof (intro conjI impI)
  assume "noSelectedDays sel"
  then show "length (inspectedDays now cs sel t) \<le> length cs"
    using dailyStreakInspected_length [of "rev (sort cs)"]
    by (simp add: inspectedDays_def Let_def)
next
  assume a: "\<not> noSelectedDays sel \<and> (t = None \<or> t = Some (getTodayString now))"
  let ?T = "getTodayString now"
  have today: "(case t of Some a \<Rightarrow> a | None \<Rightarrow> ?T) = ?T"
    using a by auto
  show "\<forall>d\<in>set (inspectedDays now cs sel t). ?T - 365 \<le> d \<and> d < ?T"
  proof
    fix d assume d: "d \<in> set (inspectedDays now cs sel t)"
    then have ne: "cs \<noteq> []"
      by (auto simp: inspectedDays_def)
    from d have "d \<in> set (scheduledStreakInspected now (the sel) (rev (sort cs))
        (parseLocal (?T - 1)))"
      using a ne by (simp add: inspectedDays_scheduled today)
    then have cases: "d = ?T - 1 \<or> (d < ?T - 1 \<and> now - 365 * msPerDay \<le> parseLocal d)"
      using scheduledStreakInspected_within [of d now "the sel" "rev (sort cs)" "parseLocal (?T - 1)"]
      by (simp add: parseLocal_mod Day_parseLocal)
    have le: "parseLocal ?T \<le> now"
      using parseLocal_Day_le [of now] by (simp add: getTodayString_def formatDate_def)
    have "?T - 365 \<le> d" if "now - 365 * msPerDay \<le> parseLocal d"
    proof -
      have "(?T - 365) * msPerDay \<le> d * msPerDay"
        using that le by (simp add: parseLocal_def left_diff_distrib)
      then show ?thesis
        using msPerDay_pos by (rule mult_right_le_imp_le)
    qed
    with cases show "?T - 365 \<le> d \<and> d < ?T"
      by auto
  qed
next
  assume a: "\<not> noSelectedDays sel"
  show "calculateStreak now cs sel t =
      (let today = (case t of Some a \<Rightarrow> a | None \<Rightarrow> getTodayString now)
       in (if dayNameOf (parseLocal today) \<in> set (the sel) \<and> today \<in> set cs then 1 else 0)
          + int (length (filter (\<lambda>d. dayNameOf (parseLocal d) \<in> set (the sel) \<and> d \<in> set cs)
                           (inspectedDays now cs sel t))))"
  proof (cases "cs = []")
    case True
    then show ?thesis
      by (simp add: calculateStreak_def inspectedDays_def)
  next
    case False
    show ?thesis
      unfolding calculateStreak_scheduled [OF a False] inspectedDays_scheduled [OF a False] Let_def
      by (subst scheduledStreakLoop_accumulated) simp
  qed
qed

theorem C7_walk_bounded_witness:
  "calculateStreak (parseLocal (isoDate 2024 6 10) + 5000)
      [isoDate 2024 6 7, isoDate 2024 6 8, isoDate 2024 6 9]
      (Some [''friday'', ''saturday'', ''sunday'']) None = 3
   \<and> inspectedDays (parseLocal (isoDate 2024 6 10) + 5000)
      [isoDate 2024 6 7, isoDate 2024 6 8, isoDate 2024 6 9]
      (Some [''friday'', ''saturday'', ''sunday'']) None
       = rev [isoDate 2024 6 2 ..isoDate 2024 6 9]
   \<and> inspectedDays (parseLocal (isoDate 2024 6 10) + 5000)
      [isoDate 2024 6 7, isoDate 2024 6 8, isoDate 2024 6 9] (Some []) None
       = rev [isoDate 2024 6 7 ..isoDate 2024 6 9]"
  using C7_walk_bounded [of "Some [''friday'', ''saturday'', ''sunday'']"
      "parseLocal (isoDate 2024 6 10) + 5000"
      "[isoDate 2024 6 7, isoDate 2024 6 8, isoDate 2024 6 9]" None]
    C7_walk_bounded [of "Some []" "parseLocal (isoDate 2024 6 10) + 5000"
      "[isoDate 2024 6 7, isoDate 2024 6 8, isoDate 2024 6 9]" None]
  by (simp add: eval_simps inspectedDays_def scheduledStreakInspected_gap
        scheduledStreakInspected_bound scheduledStreakInspected_step)

text \<open>
  C8. For every date, \<open>getWeekStart\<close> returns the Monday on or before it, at the same time
  of day: it moves back by the number of days since Monday, between 0 and 6, lands on a
  Monday, and for a Sunday it moves back exactly 6 days.
\<close>

theorem C8_getWeekStart_monday:
  "getDay (getWeekStart d) = 1
   \<and> getWeekStart d = d - ((getDay d + 6) mod 7) * msPerDay
   \<and> formatDate (getWeekStart d) \<le> formatDate d
   \<and> formatDate d - formatDate (getWeekStart d) \<le> 6
   \<and> (getDay d = 0 \<longrightarrow> formatDate (getWeekStart d) = formatDate d - 6)"
proof -
  let ?k = "(getDay d + 6) mod 7"
  have eq: "getWeekStart d = d - ?k * msPerDay"
    by (rule getWeekStart_eq)
  have day: "Day (getWeekStart d) = Day d - ?k"
    using Day_add_days [of d "- ?k"] eq by simp
  have mon: "getDay (getWeekStart d) = 1"
    unfolding getDay_def day by presburger
  have rng: "0 \<le> ?k \<and> ?k \<le> 6"
    by presburger
  have sun: "getDay d = 0 \<longrightarrow> ?k = 6"
    by simp
  have "formatDate (getWeekStart d) \<le> formatDate d"
    and "formatDate d - formatDate (getWeekStart d) \<le> 6"
    and "getDay d = 0 \<longrightarrow> formatDate (getWeekStart d) = formatDate d - 6"
    unfolding formatDate_def day using rng sun by simp_all
  with mon eq show ?thesis
    by blast
qed

theorem C8_getWeekStart_monday_witness:
  "getDay (parseLocal (isoDate 2024 6 9) + 5000) = 0
   \<and> formatDate (getWeekStart (parseLocal (isoDate 2024 6 9) + 5000)) = isoDate 2024 6 3
   \<and> getDay (getWeekStart (parseLocal (isoDate 2024 6 9) + 5000)) = 1"
  using C8_getWeekStart_monday [of "parseLocal (isoDate 2024 6 9) + 5000"]
  by code_simp

text \<open>
  C9. \<open>getHabitStats\<close> is a fold over the habit list: the number of habits, the sum of
  the numbers of completions, the rounded mean of the monthly completion rates, the
  maximum of 0 and every \<open>bestStreak\<close> (the maximum \<open>bestStreak\<close> itself when there is a
  habit and none is negative), and the number of habits whose \<open>currentStreak\<close> is
  positive; on the empty list every field is 0.
\<close>

theorem C9_getHabitStats_fold:
  "getHabitStats now habits =
     \<lparr> totalHabits = int (length habits),
       totalCompletions = (\<Sum>h\<leftarrow>habits. int (length (completions h))),
       averageCompletionRate =
         (if habits = [] then 0
          else Math_round (of_int (\<Sum>h\<leftarrow>habits. getCompletionRate now h Month)
                             / of_int (int (length habits)))),
       longestStreak = Max (insert 0 (bestStreak ` set habits)),
       currentActiveStreaks = int (length (filter (\<lambda>h. 0 < currentStreak h) habits)) \<rparr>
   \<and> (habits \<noteq> [] \<and> (\<forall>h\<in>set habits. 0 \<le> bestStreak h) \<longrightarrow>
        longestStreak (getHabitStats now habits) = Max (bestStreak ` set habits))
   \<and> getHabitStats now [] =
     \<lparr> totalHabits = 0, totalCompletions = 0, averageCompletionRate = 0,
       longestStreak = 0, currentActiveStreaks = 0 \<rparr>"
proof -
  have "habits \<noteq> [] \<and> (\<forall>h\<in>set habits. 0 \<le> bestStreak h) \<longrightarrow>
      longestStreak (getHabitStats now habits) = Max (bestStreak ` set habits)"
    using Max_insert_zero_nonneg [of "map bestStreak habits"]
    by (simp add: getHabitStats_def Let_def foldr_max_Max)
  then show ?thesis
    by (simp add: getHabitStats_def Let_def foldl_add_sum foldr_max_Max)
qed

theorem C9_getHabitStats_fold_witness:
  "getHabitStats (parseLocal (isoDate 2024 6 3) + 5000)
      [\<lparr> createdDate = isoDate 2024 6 1, completions = [isoDate 2024 6 2, isoDate 2024 6 3],
          currentStreak = 1, bestStreak = 1, selectedDays = Some [] \<rparr>,
       \<lparr> createdDate = isoDate 2024 6 3, completions = [],
          currentStreak = 0, bestStreak = 4, selectedDays = Some [''monday''] \<rparr>]
   = \<lparr> totalHabits = 2, totalCompletions = 2, averageCompletionRate = 34,
       longestStreak = 4, currentActiveStreaks = 1 \<rparr>"
  using C9_getHabitStats_fold [of "parseLocal (isoDate 2024 6 3) + 5000"
      "[\<lparr> createdDate = isoDate 2024 6 1, completions = [isoDate 2024 6 2, isoDate 2024 6 3],
          currentStreak = 1, bestStreak = 1, selectedDays = Some [] \<rparr>,
       \<lparr> createdDate = isoDate 2024 6 3, completions = [],
          currentStreak = 0, bestStreak = 4, selectedDays = Some [''monday''] \<rparr>]"]
  by code_simp

text \<open>
  C10. The habit returned by \<open>updateHabitStreaks\<close> carries the freshly computed current
  streak, and its best streak is the maximum of \<open>calculateBestStreak\<close> and that current
  streak, hence never below it, whatever the completions are.
\<close>

theorem C10_updateHabitStreaks_clamps:
  "currentStreak (updateHabitStreaks now habit)
     = calculateStreak now (completions habit) (selectedDays habit) None
   \<and> bestStreak (updateHabitStreaks now habit)
     = max (calculateBestStreak (completions habit) (selectedDays habit))
           (currentStreak (updateHabitStreaks now habit))
   \<and> currentStreak (updateHabitStreaks now habit) \<le> bestStreak (updateHabitStreaks now habit)"
  by (simp add: updateHabitStreaks_def Let_def)

text \<open>
  With a duplicated completion the pure best streak (2) is below the current streak (3),
  and the stored best streak is raised to 3.
\<close>

theorem C10_updateHabitStreaks_clamps_witness:
  "calculateBestStreak
     [isoDate 2024 6 7, isoDate 2024 6 8, isoDate 2024 6 8, isoDate 2024 6 9]
     (Some [''friday'', ''saturday'', ''sunday'']) = 2
   \<and> bestStreak (updateHabitStreaks (parseLocal (isoDate 2024 6 10) + 5000)
        \<lparr> createdDate = isoDate 2024 6 1,
          completions = [isoDate 2024 6 7, isoDate 2024 6 8, isoDate 2024 6 8, isoDate 2024 6 9],
          currentStreak = 0, bestStreak = 0,
          selectedDays = Some [''friday'', ''saturday'', ''sunday''] \<rparr>) = 3"
  using C10_updateHabitStreaks_clamps [of "parseLocal (isoDate 2024 6 10) + 5000"
      "\<lparr> createdDate = isoDate 2024 6 1,
         completions = [isoDate 2024 6 7, isoDate 2024 6 8, isoDate 2024 6 8, isoDate 2024 6 9],
         currentStreak = 0, bestStreak = 0,
         selectedDays = Some [''friday'', ''saturday'', ''sunday''] \<rparr>"]
  by (simp add: eval_simps)

end
